theory Spec2Isabelle
  imports Complex_Main "HOL-Library.Multiset"
begin

section \<open>Python values, errors and the random source\<close>

text \<open>
  The sequence generator of \<^verbatim>\<open>nback/sequences.py\<close> and the scoring of
  \<^verbatim>\<open>run_block\<close> in \<^verbatim>\<open>nback_task.py\<close> are embedded as HOL functions.

  \<^item> A Python exception is a value \<open>Inl e\<close> of a sum type; every list read of the
    source goes through \<open>py_get\<close>, which raises \<open>IndexError\<close> out of range and
    counts a negative index from the end, as Python does.
  \<^item> The module-global random source is an explicit state: a tape of raw draws.
    \<open>random.random()\<close> reads one draw \<open>k\<close> and yields the 53-bit fraction
    \<open>(k mod 2^53) / 2^53\<close>, \<open>randbelow n\<close> yields \<open>k mod n\<close>; a tape that has run out
    yields the draw \<open>0\<close>. Every run of the generator reads finitely many draws, so
    quantifying over all tapes covers every behaviour of the random source.
  \<^item> Python floats are exact rationals here (\<open>rat\<close>): rates, the product
    \<open>target_rate * n_trials\<close> and the cumulative weights of the letter chooser.
    \<open>round\<close> is Python 3's round-half-to-even.
  \<^item> \<open>n_back\<close> and \<open>n_trials\<close> are natural numbers; the integer-valued limits
    (\<open>max_consec_targets\<close>, \<open>max_identical_run\<close>, \<open>max_attempts\<close>) are \<open>int\<close>, since the
    source branches on their being \<open>\<le> 0\<close>.
\<close>

datatype py_error = IndexError | SystemExit

text \<open>
  \<open>py_index len i\<close> is the position a Python index \<open>i\<close> denotes in a sequence of
  length \<open>len\<close>, if any: \<open>i\<close> itself from \<open>0\<close> up, \<open>len + i\<close> for the negative indices
  down to \<open>- len\<close>.
\<close>

definition py_index :: "nat \<Rightarrow> int \<Rightarrow> nat option" where
  "py_index len i =
     (if 0 \<le> i \<and> i < int len then Some (nat i)
      else if - int len \<le> i \<and> i < 0 then Some (nat (int len + i))
      else None)"

definition py_get :: "'a list \<Rightarrow> int \<Rightarrow> py_error + 'a" where
  "py_get xs i =
     (case py_index (length xs) i of
        None \<Rightarrow> Inl IndexError
      | Some k \<Rightarrow> Inr (xs ! k))"

definition py_set :: "'a list \<Rightarrow> int \<Rightarrow> 'a \<Rightarrow> py_error + 'a list" where
  "py_set xs i v =
     (case py_index (length xs) i of
        None \<Rightarrow> Inl IndexError
      | Some k \<Rightarrow> Inr (xs[k := v]))"

definition py_round :: "rat \<Rightarrow> int" where
  "py_round x =
     (let f = \<lfloor>x\<rfloor>; d = x - of_int f
      in if d < 1 / 2 then f else if 1 / 2 < d then f + 1
         else if even f then f else f + 1)"

type_synonym rng = "nat list"

definition next_draw :: "rng \<Rightarrow> nat \<times> rng" where
  "next_draw g = (case g of [] \<Rightarrow> (0, []) | k # ks \<Rightarrow> (k, ks))"

definition random_random :: "rng \<Rightarrow> rat \<times> rng" where
  "random_random g =
     (case next_draw g of (k, g') \<Rightarrow> (of_nat (k mod 2 ^ 53) / 2 ^ 53, g'))"

definition randbelow :: "nat \<Rightarrow> rng \<Rightarrow> nat \<times> rng" where
  "randbelow n g = (case next_draw g of (k, g') \<Rightarrow> (k mod n, g'))"

definition random_choice :: "'a list \<Rightarrow> rng \<Rightarrow> py_error + ('a \<times> rng)" where
  "random_choice xs g =
     (if xs = [] then Inl IndexError
      else case randbelow (length xs) g of (j, g') \<Rightarrow>
        (case py_get xs (int j) of Inl e \<Rightarrow> Inl e | Inr x \<Rightarrow> Inr (x, g')))"

text \<open>
  \<^verbatim>\<open>random.shuffle\<close>: for \<open>i\<close> from \<open>len - 1\<close> down to \<open>1\<close>, swap \<open>x[i]\<close> with
  \<open>x[randbelow (i + 1)]\<close>. \<open>shuffle_from k\<close> runs the iterations \<open>i = k, \<dots>, 1\<close>.
\<close>

fun shuffle_from :: "nat \<Rightarrow> 'a list \<Rightarrow> rng \<Rightarrow> 'a list \<times> rng" where
  "shuffle_from 0 xs g = (xs, g)"
| "shuffle_from (Suc i) xs g =
     (case randbelow (Suc i + 1) g of (j, g') \<Rightarrow>
        shuffle_from i (xs[Suc i := xs ! j, j := xs ! Suc i]) g')"

definition shuffle :: "'a list \<Rightarrow> rng \<Rightarrow> 'a list \<times> rng" where
  "shuffle xs g = shuffle_from (length xs - 1) xs g"

section \<open>The data model\<close>

record TrialPlan =
  stimulus :: string
  is_target :: int
  lure_type :: string
  iti_ms :: int

definition LETTERS :: "string list" where
  "LETTERS = map (\<lambda>c. [c])
     (filter (\<lambda>c. c \<notin> set ''IOQ'') ''ABCDEFGHIJKLMNOPQRSTUVWXYZ'')"

section \<open>The letter chooser\<close>

text \<open>
  The frequency dictionary is an association list with distinct keys, in insertion
  order; \<open>freq_get\<close> is \<^verbatim>\<open>freq.get(c, 0)\<close> and \<open>freq_incr\<close> is
  \<^verbatim>\<open>freqs[letter] = freqs.get(letter, 0) + 1\<close>.
\<close>

type_synonym freq_map = "(string \<times> int) list"

definition freq_get :: "freq_map \<Rightarrow> string \<Rightarrow> int" where
  "freq_get freq c = (case map_of freq c of None \<Rightarrow> 0 | Some v \<Rightarrow> v)"

fun freq_put :: "freq_map \<Rightarrow> string \<Rightarrow> int \<Rightarrow> freq_map" where
  "freq_put [] c v = [(c, v)]"
| "freq_put ((k, w) # kvs) c v =
     (if k = c then (k, v) # kvs else (k, w) # freq_put kvs c v)"

definition freq_incr :: "freq_map \<Rightarrow> string \<Rightarrow> freq_map" where
  "freq_incr freq c = freq_put freq c (freq_get freq c + 1)"

definition max_values :: "freq_map \<Rightarrow> int" where
  "max_values freq = (case map snd freq of [] \<Rightarrow> 1 | v # vs \<Rightarrow> fold max vs v)"

definition soft_weights :: "string list \<Rightarrow> freq_map \<Rightarrow> int list" where
  "soft_weights candidates freq =
     map (\<lambda>w. max w 1)
       (map (\<lambda>c. max_values freq - freq_get freq c + 1) candidates)"

text \<open>The loop \<^verbatim>\<open>for c, w in zip(candidates, weights)\<close> with its running sum \<open>acc\<close>.\<close>

fun pick_weighted :: "(string \<times> int) list \<Rightarrow> rat \<Rightarrow> rat \<Rightarrow> string option" where
  "pick_weighted [] r acc = None"
| "pick_weighted ((c, w) # cws) r acc =
     (let acc' = acc + of_int w in
      if r \<le> acc' then Some c else pick_weighted cws r acc')"

definition choose_letter ::
  "string list \<Rightarrow> freq_map \<Rightarrow> bool \<Rightarrow> rng \<Rightarrow> py_error + (string \<times> rng)" where
  "choose_letter candidates0 freq soft_balance g =
     (let candidates = (if candidates0 = [] then LETTERS else candidates0) in
      if soft_balance then
        (let weights = soft_weights candidates freq;
             total = (of_int (sum_list weights) :: rat)
         in case random_random g of (u, g') \<Rightarrow>
           (case pick_weighted (zip candidates weights) (u * total) 0 of
              Some c \<Rightarrow> Inr (c, g')
            | None \<Rightarrow>
                (case py_get candidates (- 1) of
                   Inl e \<Rightarrow> Inl e | Inr c \<Rightarrow> Inr (c, g'))))
      else random_choice candidates g)"

text \<open>
  The chooser as the specification words it: the weights are taken against the highest
  frequency \<^emph>\<open>among the candidates\<close> (1 if there are none).
\<close>

definition spec_max_freq :: "string list \<Rightarrow> freq_map \<Rightarrow> int" where
  "spec_max_freq candidates freq =
     (case map (freq_get freq) candidates of [] \<Rightarrow> 1 | v # vs \<Rightarrow> fold max vs v)"

definition spec_weights :: "string list \<Rightarrow> freq_map \<Rightarrow> int list" where
  "spec_weights candidates freq =
     map (\<lambda>c. max (spec_max_freq candidates freq - freq_get freq c + 1) 1) candidates"

definition spec_choose_letter :: "string list \<Rightarrow> freq_map \<Rightarrow> rng \<Rightarrow> string option" where
  "spec_choose_letter candidates freq g =
     (case random_random g of (u, g') \<Rightarrow>
        pick_weighted (zip candidates (spec_weights candidates freq))
          (u * of_int (sum_list (spec_weights candidates freq))) 0)"

text \<open>
  \<open>first_reaching ws r\<close> is the least position whose cumulative weight
  \<open>ws ! 0 + \<dots> + ws ! k\<close> reaches or exceeds \<open>r\<close>, if there is one.
\<close>

fun first_reaching :: "int list \<Rightarrow> rat \<Rightarrow> nat option" where
  "first_reaching [] r = None"
| "first_reaching (w # ws) r =
     (if r \<le> of_int w then Some 0
      else map_option Suc (first_reaching ws (r - of_int w)))"

section \<open>Run limits\<close>

text \<open>
  \<^verbatim>\<open>_valid_run_limit\<close>: the \<^verbatim>\<open>while\<close> loop walks the sequence from its last
  element backwards; \<open>count_run\<close> is that walk over the reversed sequence.
\<close>

fun count_run :: "string list \<Rightarrow> string \<Rightarrow> int \<Rightarrow> int" where
  "count_run [] c run_len = run_len"
| "count_run (x # xs) c run_len =
     (if x = c then count_run xs c (run_len + 1) else run_len)"

definition valid_run_limit :: "string list \<Rightarrow> string \<Rightarrow> int \<Rightarrow> bool" where
  "valid_run_limit seq candidate max_run =
     (if max_run \<le> 0 then True else count_run (rev seq) candidate 1 \<le> max_run)"

section \<open>Loops that may raise\<close>

text \<open>
  A \<^verbatim>\<open>for\<close> loop whose body updates a state and may raise: the first exception
  ends the loop.
\<close>

fun for_each :: "('i \<Rightarrow> 's \<Rightarrow> py_error + 's) \<Rightarrow> 'i list \<Rightarrow> 's \<Rightarrow> py_error + 's" where
  "for_each body [] s = Inr s"
| "for_each body (i # is) s =
     (case body i s of Inl e \<Rightarrow> Inl e | Inr s' \<Rightarrow> for_each body is s')"

section \<open>The constraint validator\<close>

text \<open>The reason strings of \<^verbatim>\<open>validate_sequence\<close>, with the numbers the two f-strings print.\<close>

datatype reason =
    Reason_ok
  | Target_in_first_N
  | Target_count_outside int int
  | Immediate_repeat
  | Nm1_too_early
  | Lure_double_counted
  | Nm1_mismatch
  | Nm1_equals_target
  | Np1_too_early
  | Np1_mismatch
  | Np1_equals_target
  | Consecutive_targets int

text \<open>\<^verbatim>\<open>any(is_target_flags[i] == 1 for i in range(0, min(n_back, n_trials)))\<close>\<close>

fun early_target :: "int list \<Rightarrow> nat list \<Rightarrow> py_error + bool" where
  "early_target flags [] = Inr False"
| "early_target flags (i # is) =
     (case py_get flags (int i) of
        Inl e \<Rightarrow> Inl e
      | Inr f \<Rightarrow> if f = 1 then Inr True else early_target flags is)"

text \<open>The loop over \<^verbatim>\<open>range(1, n_trials)\<close>; the conjunction reads left to right.\<close>

fun immediate_repeat ::
  "string list \<Rightarrow> int list \<Rightarrow> string list \<Rightarrow> nat list \<Rightarrow> py_error + bool" where
  "immediate_repeat seq flags lts [] = Inr False"
| "immediate_repeat seq flags lts (i # is) =
     (case py_get seq (int i) of Inl e \<Rightarrow> Inl e | Inr a \<Rightarrow>
      (case py_get seq (int i - 1) of Inl e \<Rightarrow> Inl e | Inr b \<Rightarrow>
       if a \<noteq> b then immediate_repeat seq flags lts is
       else (case py_get flags (int i) of Inl e \<Rightarrow> Inl e | Inr f \<Rightarrow>
         if f \<noteq> 0 then immediate_repeat seq flags lts is
         else (case py_get lts (int i) of Inl e \<Rightarrow> Inl e | Inr lt \<Rightarrow>
           if lt = ''none'' then Inr True
           else immediate_repeat seq flags lts is))))"

text \<open>
  One lure of the loop over \<^verbatim>\<open>range(n_trials)\<close>: the reads
  \<^verbatim>\<open>is_target_flags[i]\<close>, \<^verbatim>\<open>seq[i]\<close>, \<^verbatim>\<open>seq[i - off]\<close> and \<^verbatim>\<open>seq[i - n_back]\<close> with
  the three reasons of the branch, after its too-early test.
\<close>

definition lure_ok ::
  "string list \<Rightarrow> int list \<Rightarrow> nat \<Rightarrow> nat \<Rightarrow> int \<Rightarrow> reason \<Rightarrow> reason \<Rightarrow>
   py_error + reason option" where
  "lure_ok seq flags nb i off mismatch equals_target =
     (case py_get flags (int i) of Inl e \<Rightarrow> Inl e | Inr f \<Rightarrow>
      if f = 1 then Inr (Some Lure_double_counted)
      else (case py_get seq (int i) of Inl e \<Rightarrow> Inl e | Inr a \<Rightarrow>
        (case py_get seq (int i - off) of Inl e \<Rightarrow> Inl e | Inr b \<Rightarrow>
         if a \<noteq> b then Inr (Some mismatch)
         else if nb \<le> i then
           (case py_get seq (int i) of Inl e \<Rightarrow> Inl e | Inr a' \<Rightarrow>
            (case py_get seq (int i - int nb) of Inl e \<Rightarrow> Inl e | Inr c \<Rightarrow>
             if a' = c then Inr (Some equals_target) else Inr None))
         else Inr None)))"

fun lure_check ::
  "string list \<Rightarrow> int list \<Rightarrow> string list \<Rightarrow> nat \<Rightarrow> nat list \<Rightarrow>
   py_error + reason option" where
  "lure_check seq flags lts nb [] = Inr None"
| "lure_check seq flags lts nb (i # is) =
     (case py_get lts (int i) of Inl e \<Rightarrow> Inl e | Inr lt \<Rightarrow>
      (case
         (if lt = ''n-1'' then
            (if \<not> (int nb - 1 \<le> int i \<and> 0 < int nb - 1) then Inr (Some Nm1_too_early)
             else lure_ok seq flags nb i (int nb - 1) Nm1_mismatch Nm1_equals_target)
          else if lt = ''n+1'' then
            (if \<not> (int nb + 1 \<le> int i) then Inr (Some Np1_too_early)
             else lure_ok seq flags nb i (int nb + 1) Np1_mismatch Np1_equals_target)
          else Inr None)
       of Inl e \<Rightarrow> Inl e
        | Inr (Some r) \<Rightarrow> Inr (Some r)
        | Inr None \<Rightarrow> lure_check seq flags lts nb is))"

text \<open>The last loop: \<open>True\<close> when some run of targets exceeds the limit.\<close>

fun consec_exceeds :: "int list \<Rightarrow> int \<Rightarrow> int \<Rightarrow> bool" where
  "consec_exceeds [] consec mct = False"
| "consec_exceeds (f # fs) consec mct =
     (if f = 1 then
        (if mct < consec + 1 then True else consec_exceeds fs (consec + 1) mct)
      else consec_exceeds fs 0 mct)"

definition validate_sequence ::
  "string list \<Rightarrow> int list \<Rightarrow> string list \<Rightarrow> nat \<Rightarrow> rat \<Rightarrow> int \<Rightarrow> int \<Rightarrow>
   py_error + (bool \<times> reason)" where
  "validate_sequence seq flags lts nb rate tolerance mct =
     (let nt = length seq in
      case early_target flags [0..<min nb nt] of Inl e \<Rightarrow> Inl e
      | Inr True \<Rightarrow> Inr (False, Target_in_first_N)
      | Inr False \<Rightarrow>
        (let desired_targets = py_round (rate * of_nat nt);
             total_targets = sum_list flags
         in if \<not> (desired_targets - 1 \<le> total_targets \<and> total_targets \<le> desired_targets + 1)
            then Inr (False, Target_count_outside total_targets desired_targets)
            else
              (case (if 1 < nb then immediate_repeat seq flags lts [1..<nt] else Inr False) of
                 Inl e \<Rightarrow> Inl e
               | Inr True \<Rightarrow> Inr (False, Immediate_repeat)
               | Inr False \<Rightarrow>
                   (case lure_check seq flags lts nb [0..<nt] of
                      Inl e \<Rightarrow> Inl e
                    | Inr (Some r) \<Rightarrow> Inr (False, r)
                    | Inr None \<Rightarrow>
                        if consec_exceeds flags 0 mct
                        then Inr (False, Consecutive_targets mct)
                        else Inr (True, Reason_ok)))))"

section \<open>Sampling the target indices\<close>

text \<open>
  The inner \<^verbatim>\<open>while j >= 0 and chosen[j] == (i - (len(chosen) - j))\<close> loop;
  \<open>k\<close> is \<open>j + 1\<close>, so \<open>j\<close> stays below \<open>len(chosen)\<close>.
\<close>

fun chosen_run :: "nat list \<Rightarrow> nat \<Rightarrow> nat \<Rightarrow> int \<Rightarrow> int" where
  "chosen_run chosen i 0 run = run"
| "chosen_run chosen i (Suc j) run =
     (if int (chosen ! j) = int i - (int (length chosen) - int j)
      then chosen_run chosen i j (run + 1) else run)"

fun sample_pass :: "nat list \<Rightarrow> nat list \<Rightarrow> int \<Rightarrow> int \<Rightarrow> nat list" where
  "sample_pass [] chosen desired mct = chosen"
| "sample_pass (i # ps) chosen desired mct =
     (if desired \<le> int (length chosen) then chosen
      else if mct \<le> 0 then sample_pass ps (chosen @ [i]) desired mct
      else if mct = 1 \<and> chosen \<noteq> [] \<and> int i - int (last chosen) = 1
        then sample_pass ps chosen desired mct
      else if chosen \<noteq> [] \<and> mct < chosen_run chosen i (length chosen) 1
        then sample_pass ps chosen desired mct
      else sample_pass ps (chosen @ [i]) desired mct)"

fun sample_attempts ::
  "nat \<Rightarrow> nat list \<Rightarrow> int \<Rightarrow> int \<Rightarrow> rng \<Rightarrow> nat list option \<times> rng" where
  "sample_attempts 0 positions desired mct g = (None, g)"
| "sample_attempts (Suc k) positions desired mct g =
     (case shuffle positions g of (positions', g') \<Rightarrow>
        (let chosen = sample_pass positions' [] desired mct in
         if int (length chosen) = desired then (Some (sort chosen), g')
         else sample_attempts k positions' desired mct g'))"

definition sample_target_indices ::
  "nat \<Rightarrow> nat \<Rightarrow> int \<Rightarrow> int \<Rightarrow> nat \<Rightarrow> rng \<Rightarrow> nat list option \<times> rng" where
  "sample_target_indices nb nt desired mct attempts g =
     (if desired \<le> 0 then (Some [], g)
      else sample_attempts attempts [nb..<nt] desired mct g)"

section \<open>The sequence generator: primary loop\<close>

text \<open>
  The state of one generation attempt: the sequence so far, the target flags, the lure
  types, the letter frequencies and the random source.
\<close>

type_synonym attempt = "string list \<times> int list \<times> string list \<times> freq_map \<times> rng"

text \<open>
  The body shared by the two lure blocks once the guard and the Bernoulli draw have
  passed: \<open>off\<close> is \<open>n_back - 1\<close> or \<open>n_back + 1\<close>. The result is the accepted lure
  letter, if any. A Python string is true when it is not empty.
\<close>

definition lure_letter ::
  "nat \<Rightarrow> nat \<Rightarrow> int \<Rightarrow> int \<Rightarrow> string list \<Rightarrow> py_error + string option" where
  "lure_letter nb i off max_run seq =
     (case py_get seq (int i - off) of Inl e \<Rightarrow> Inl e | Inr letter_l \<Rightarrow>
      (case (if nb \<le> i
             then (case py_get seq (int i - int nb) of
                     Inl e \<Rightarrow> Inl e | Inr x \<Rightarrow> Inr (Some x))
             else Inr None)
       of Inl e \<Rightarrow> Inl e
        | Inr letter_n \<Rightarrow>
            Inr (if letter_l \<noteq> [] \<and> (letter_n = None \<or> letter_n \<noteq> Some letter_l)
                    \<and> valid_run_limit seq letter_l max_run
                 then Some letter_l else None)))"

text \<open>
  The exclusions applied to a candidate list, for the filler and again for the run-limit
  repair: drop the n-back letter when there is one, then drop the last letter when it is
  a candidate and one more of it would exceed \<open>max_identical_run - 1\<close>.
\<close>

definition exclude_back ::
  "string list \<Rightarrow> nat \<Rightarrow> nat \<Rightarrow> int \<Rightarrow> string list \<Rightarrow> py_error + string list" where
  "exclude_back cands nb i max_run seq =
     (case (if nb \<le> i
            then (case py_get seq (int i - int nb) of
                    Inl e \<Rightarrow> Inl e
                  | Inr avoid \<Rightarrow> Inr (filter (\<lambda>c. c \<noteq> avoid) cands))
            else Inr cands)
      of Inl e \<Rightarrow> Inl e
       | Inr cands1 \<Rightarrow>
           if seq \<noteq> [] then
             (case py_get seq (- 1) of Inl e \<Rightarrow> Inl e | Inr last_l \<Rightarrow>
                if last_l \<in> set cands1 \<and> \<not> valid_run_limit seq last_l (max_run - 1)
                then Inr (filter (\<lambda>c. c \<noteq> last_l) cands1)
                else Inr cands1)
           else Inr cands1)"

text \<open>
  One lure block: the guard, then the Bernoulli draw \<^verbatim>\<open>random.random() < rate\<close>
  (made only when the guard holds), then the lure letter if it is accepted.
\<close>

definition lure_attempt ::
  "bool \<Rightarrow> rat \<Rightarrow> nat \<Rightarrow> nat \<Rightarrow> int \<Rightarrow> int \<Rightarrow> string list \<Rightarrow> rng \<Rightarrow>
   py_error + (string option \<times> rng)" where
  "lure_attempt guard rate nb i off max_run seq g =
     (if guard then
        (case random_random g of (u, g') \<Rightarrow>
           if u < rate
           then (case lure_letter nb i off max_run seq of
                   Inl e \<Rightarrow> Inl e | Inr l \<Rightarrow> Inr (l, g'))
           else Inr (None, g'))
      else Inr (None, g))"

text \<open>The filler: a letter chosen among the alphabet after the exclusions.\<close>

definition filler ::
  "nat \<Rightarrow> int \<Rightarrow> bool \<Rightarrow> nat \<Rightarrow> string list \<Rightarrow> freq_map \<Rightarrow> rng \<Rightarrow>
   py_error + (string \<times> rng)" where
  "filler nb max_run soft i seq freqs g =
     (case exclude_back LETTERS nb i max_run seq of
        Inl e \<Rightarrow> Inl e
      | Inr candidates \<Rightarrow> choose_letter candidates freqs soft g)"

text \<open>
  The non-target branch: the n-1 lure, the n+1 lure when no n-1 lure was placed, then a
  filler when no lure was placed. The result is the letter, the planned lure type and the
  random source.
\<close>

definition non_target ::
  "nat \<Rightarrow> rat \<Rightarrow> rat \<Rightarrow> int \<Rightarrow> bool \<Rightarrow> bool \<Rightarrow> nat \<Rightarrow> string list \<Rightarrow> freq_map \<Rightarrow> rng \<Rightarrow>
   py_error + (string \<times> string \<times> rng)" where
  "non_target nb rate_nm1 rate_np1 max_run soft lures i seq freqs g =
     (case lure_attempt (lures \<and> 0 < int nb - 1 \<and> int nb - 1 \<le> int i)
             rate_nm1 nb i (int nb - 1) max_run seq g
      of Inl e \<Rightarrow> Inl e
       | Inr (Some letter, g1) \<Rightarrow> Inr (letter, ''n-1'', g1)
       | Inr (None, g1) \<Rightarrow>
         (case lure_attempt (lures \<and> int nb + 1 \<le> int i)
                 rate_np1 nb i (int nb + 1) max_run seq g1
          of Inl e \<Rightarrow> Inl e
           | Inr (Some letter, g2) \<Rightarrow> Inr (letter, ''n+1'', g2)
           | Inr (None, g2) \<Rightarrow>
             (case filler nb max_run soft i seq freqs g2 of
                Inl e \<Rightarrow> Inl e
              | Inr (letter, g3) \<Rightarrow> Inr (letter, ''none'', g3))))"

text \<open>The final run-limit check and its repair.\<close>

definition run_repair ::
  "nat \<Rightarrow> int \<Rightarrow> bool \<Rightarrow> nat \<Rightarrow> string list \<Rightarrow> freq_map \<Rightarrow> string \<Rightarrow> rng \<Rightarrow>
   py_error + (string \<times> rng)" where
  "run_repair nb max_run soft i seq freqs letter g =
     (if \<not> valid_run_limit seq letter max_run then
        (case exclude_back (filter (\<lambda>c. valid_run_limit seq c max_run) LETTERS)
                nb i max_run seq of
           Inl e \<Rightarrow> Inl e
         | Inr cands \<Rightarrow> choose_letter cands freqs soft g)
      else Inr (letter, g))"

text \<open>
  The letter, target flag and lure type planned for trial \<open>i\<close>, before the run-limit
  check. The inner \<^verbatim>\<open>else\<close> of the target branch cannot be reached; it is kept as
  the source has it.
\<close>

definition plan_trial ::
  "nat \<Rightarrow> nat list \<Rightarrow> rat \<Rightarrow> rat \<Rightarrow> int \<Rightarrow> bool \<Rightarrow> bool \<Rightarrow> nat \<Rightarrow> string list \<Rightarrow> freq_map \<Rightarrow>
   rng \<Rightarrow> py_error + (string \<times> int \<times> string \<times> rng)" where
  "plan_trial nb target_indices rate_nm1 rate_np1 max_run soft lures i seq freqs g =
     (if i \<in> set target_indices \<and> nb \<le> i then
        (case (if nb \<le> i
               then (case py_get seq (int i - int nb) of
                       Inl e \<Rightarrow> Inl e | Inr letter \<Rightarrow> Inr (letter, g))
               else choose_letter LETTERS freqs soft g)
         of Inl e \<Rightarrow> Inl e
          | Inr (letter, g1) \<Rightarrow> Inr (letter, 1, ''none'', g1))
      else
        (case non_target nb rate_nm1 rate_np1 max_run soft lures i seq freqs g of
           Inl e \<Rightarrow> Inl e
         | Inr (letter, lt, g1) \<Rightarrow> Inr (letter, 0, lt, g1)))"

text \<open>One iteration of \<^verbatim>\<open>for i in range(n_trials)\<close>.\<close>

definition fill_step ::
  "nat \<Rightarrow> nat list \<Rightarrow> rat \<Rightarrow> rat \<Rightarrow> int \<Rightarrow> bool \<Rightarrow> bool \<Rightarrow> nat \<Rightarrow> attempt \<Rightarrow>
   py_error + attempt" where
  "fill_step nb target_indices rate_nm1 rate_np1 max_run soft lures i st =
     (case st of (seq, flags, lts, freqs, g) \<Rightarrow>
      (case plan_trial nb target_indices rate_nm1 rate_np1 max_run soft lures i seq freqs g of
         Inl e \<Rightarrow> Inl e
       | Inr (letter, flag, lt, g1) \<Rightarrow>
           (case run_repair nb max_run soft i seq freqs letter g1 of
              Inl e \<Rightarrow> Inl e
            | Inr (letter', g2) \<Rightarrow>
                Inr (seq @ [letter'], flags @ [flag], lts @ [lt],
                     freq_incr freqs letter', g2))))"

text \<open>Packaging: \<^verbatim>\<open>plans.append(TrialPlan(seq[i], is_target_flags[i], lure_types[i], iti_ms))\<close>.\<close>

definition plan_at ::
  "string list \<Rightarrow> int list \<Rightarrow> string list \<Rightarrow> int \<Rightarrow> nat \<Rightarrow> TrialPlan list \<Rightarrow>
   py_error + TrialPlan list" where
  "plan_at seq flags lts iti i plans =
     (case py_get seq (int i) of Inl e \<Rightarrow> Inl e | Inr s \<Rightarrow>
      (case py_get flags (int i) of Inl e \<Rightarrow> Inl e | Inr f \<Rightarrow>
       (case py_get lts (int i) of Inl e \<Rightarrow> Inl e | Inr lt \<Rightarrow>
          Inr (plans @ [\<lparr>stimulus = s, is_target = f, lure_type = lt, iti_ms = iti\<rparr>]))))"

definition init_freqs :: freq_map where
  "init_freqs = map (\<lambda>c. (c, 0)) LETTERS"

text \<open>
  One pass of \<^verbatim>\<open>for _attempt in range(1, max_attempts + 1)\<close>: \<open>None\<close> is
  \<^verbatim>\<open>continue\<close>, \<open>Some plans\<close> is \<^verbatim>\<open>return plans\<close>. The inner sampler runs with its
  default budget of 200 shuffles.
\<close>

definition attempt_once ::
  "nat \<Rightarrow> nat \<Rightarrow> rat \<Rightarrow> rat \<Rightarrow> rat \<Rightarrow> int \<Rightarrow> int \<Rightarrow> int \<Rightarrow> bool \<Rightarrow> bool \<Rightarrow> int \<Rightarrow> rng \<Rightarrow>
   py_error + (TrialPlan list option \<times> rng)" where
  "attempt_once nb nt rate rate_nm1 rate_np1 mct max_run iti soft lures desired g =
     (case sample_target_indices nb nt desired mct 200 g of
        (None, g1) \<Rightarrow> Inr (None, g1)
      | (Some target_indices, g1) \<Rightarrow>
          (case for_each (fill_step nb target_indices rate_nm1 rate_np1 max_run soft lures)
                  [0..<nt] ([], [], [], init_freqs, g1) of
             Inl e \<Rightarrow> Inl e
           | Inr (seq, flags, lts, freqs, g2) \<Rightarrow>
               (case validate_sequence seq flags lts nb rate 1 mct of
                  Inl e \<Rightarrow> Inl e
                | Inr (ok, why) \<Rightarrow>
                    if \<not> ok then Inr (None, g2)
                    else (case for_each (plan_at seq flags lts iti) [0..<nt] [] of
                            Inl e \<Rightarrow> Inl e
                          | Inr plans \<Rightarrow> Inr (Some plans, g2)))))"

fun primary_loop ::
  "nat \<Rightarrow> nat \<Rightarrow> nat \<Rightarrow> rat \<Rightarrow> rat \<Rightarrow> rat \<Rightarrow> int \<Rightarrow> int \<Rightarrow> int \<Rightarrow> bool \<Rightarrow> bool \<Rightarrow> int \<Rightarrow> rng \<Rightarrow>
   py_error + (TrialPlan list option \<times> rng)" where
  "primary_loop 0 nb nt rate rate_nm1 rate_np1 mct max_run iti soft lures desired g =
     Inr (None, g)"
| "primary_loop (Suc k) nb nt rate rate_nm1 rate_np1 mct max_run iti soft lures desired g =
     (case attempt_once nb nt rate rate_nm1 rate_np1 mct max_run iti soft lures desired g of
        Inl e \<Rightarrow> Inl e
      | Inr (Some plans, g') \<Rightarrow> Inr (Some plans, g')
      | Inr (None, g') \<Rightarrow>
          primary_loop k nb nt rate rate_nm1 rate_np1 mct max_run iti soft lures desired g')"

section \<open>The sequence generator: fallback\<close>

text \<open>
  \<^verbatim>\<open>left_run + right_run\<close>: the number of immediate neighbours of \<open>i\<close> that are
  targets.
\<close>

definition neighbour_runs :: "int list \<Rightarrow> nat \<Rightarrow> nat \<Rightarrow> py_error + int" where
  "neighbour_runs target_flags nt i =
     (case (if 0 \<le> int i - 1
            then (case py_get target_flags (int i - 1) of
                    Inl e \<Rightarrow> Inl e | Inr f \<Rightarrow> Inr (if f = 1 then 1 else 0))
            else Inr 0)
      of Inl e \<Rightarrow> Inl e
       | Inr left_run \<Rightarrow>
           (case (if i + 1 < nt
                  then (case py_get target_flags (int i + 1) of
                          Inl e \<Rightarrow> Inl e | Inr f \<Rightarrow> Inr (if f = 1 then 1 else 0))
                  else Inr 0)
            of Inl e \<Rightarrow> Inl e
             | Inr right_run \<Rightarrow> Inr (left_run + right_run)))"

text \<open>The \<^verbatim>\<open>for i in candidates\<close> loop of the greedy scatter, with its \<^verbatim>\<open>break\<close>.\<close>

fun scatter_pass :: "nat list \<Rightarrow> nat \<Rightarrow> int \<Rightarrow> int \<Rightarrow> int list \<Rightarrow> py_error + int list" where
  "scatter_pass [] nt desired mct target_flags = Inr target_flags"
| "scatter_pass (i # is) nt desired mct target_flags =
     (if desired \<le> sum_list target_flags then Inr target_flags
      else if mct \<le> 0 then scatter_pass is nt desired mct target_flags
      else (case neighbour_runs target_flags nt i of
              Inl e \<Rightarrow> Inl e
            | Inr runs \<Rightarrow>
                if mct \<le> runs then scatter_pass is nt desired mct target_flags
                else (case py_set target_flags (int i) 1 of
                        Inl e \<Rightarrow> Inl e
                      | Inr target_flags' \<Rightarrow> scatter_pass is nt desired mct target_flags')))"

text \<open>
  \<^verbatim>\<open>while sum(target_flags) < desired and attempts < 50\<close>: the first argument is
  \<open>50 - attempts\<close>.
\<close>

fun scatter_loop ::
  "nat \<Rightarrow> nat list \<Rightarrow> nat \<Rightarrow> int \<Rightarrow> int \<Rightarrow> int list \<Rightarrow> rng \<Rightarrow> py_error + (int list \<times> rng)" where
  "scatter_loop 0 candidates nt desired mct target_flags g = Inr (target_flags, g)"
| "scatter_loop (Suc k) candidates nt desired mct target_flags g =
     (if sum_list target_flags < desired then
        (case shuffle candidates g of (candidates', g') \<Rightarrow>
           (case scatter_pass candidates' nt desired mct target_flags of
              Inl e \<Rightarrow> Inl e
            | Inr target_flags' \<Rightarrow>
                scatter_loop k candidates' nt desired mct target_flags' g'))
      else Inr (target_flags, g))"

text \<open>\<^verbatim>\<open>pool = [i for i in range(n_back, n_trials) if target_flags[i] == 0]\<close>\<close>

fun pool_of :: "int list \<Rightarrow> nat list \<Rightarrow> py_error + nat list" where
  "pool_of target_flags [] = Inr []"
| "pool_of target_flags (i # is) =
     (case py_get target_flags (int i) of
        Inl e \<Rightarrow> Inl e
      | Inr f \<Rightarrow>
          (case pool_of target_flags is of
             Inl e \<Rightarrow> Inl e
           | Inr pool \<Rightarrow> Inr (if f = 0 then i # pool else pool)))"

text \<open>The final pass over the shuffled pool, strictly avoiding adjacency.\<close>

fun final_pass :: "nat list \<Rightarrow> nat \<Rightarrow> int \<Rightarrow> int list \<Rightarrow> py_error + int list" where
  "final_pass [] nt needed target_flags = Inr target_flags"
| "final_pass (i # is) nt needed target_flags =
     (if needed \<le> 0 then Inr target_flags
      else (case neighbour_runs target_flags nt i of
              Inl e \<Rightarrow> Inl e
            | Inr runs \<Rightarrow>
                if runs = 0 then
                  (case py_set target_flags (int i) 1 of
                     Inl e \<Rightarrow> Inl e
                   | Inr target_flags' \<Rightarrow> final_pass is nt (needed - 1) target_flags')
                else final_pass is nt needed target_flags))"

definition fallback_flags ::
  "nat \<Rightarrow> nat \<Rightarrow> int \<Rightarrow> int \<Rightarrow> rng \<Rightarrow> py_error + (int list \<times> rng)" where
  "fallback_flags nb nt desired mct g =
     (case scatter_loop 50 [nb..<nt] nt desired mct (replicate nt 0) g of
        Inl e \<Rightarrow> Inl e
      | Inr (target_flags, g1) \<Rightarrow>
          if sum_list target_flags < max 0 (desired - 1) then
            (let needed = desired - sum_list target_flags in
             if 0 < needed then
               (case pool_of target_flags [nb..<nt] of
                  Inl e \<Rightarrow> Inl e
                | Inr pool \<Rightarrow>
                    (case shuffle pool g1 of (pool', g2) \<Rightarrow>
                       (case final_pass pool' nt needed target_flags of
                          Inl e \<Rightarrow> Inl e
                        | Inr target_flags' \<Rightarrow> Inr (target_flags', g2))))
             else Inr (target_flags, g1))
          else Inr (target_flags, g1))"

text \<open>
  The candidates of a non-target trial of the fallback. The comprehension that drops
  \<^verbatim>\<open>seq[i - 1]\<close> reads it once per candidate, so not at all when no candidate is
  left.
\<close>

definition fallback_candidates :: "nat \<Rightarrow> nat \<Rightarrow> string list \<Rightarrow> py_error + string list" where
  "fallback_candidates nb i seq =
     (case (if nb \<le> i
            then (case py_get seq (int i - int nb) of
                    Inl e \<Rightarrow> Inl e
                  | Inr avoid_n \<Rightarrow> Inr (filter (\<lambda>c. c \<noteq> avoid_n) LETTERS))
            else Inr LETTERS)
      of Inl e \<Rightarrow> Inl e
       | Inr cands1 \<Rightarrow>
           if 1 \<le> i \<and> cands1 \<noteq> []
           then (case py_get seq (int i - 1) of
                   Inl e \<Rightarrow> Inl e
                 | Inr prev \<Rightarrow> Inr (filter (\<lambda>c. c \<noteq> prev) cands1))
           else Inr cands1)"

text \<open>\<^verbatim>\<open>letter = random.choice(candidates) if candidates else LETTERS[0]\<close>\<close>

definition fallback_letter :: "string list \<Rightarrow> rng \<Rightarrow> py_error + (string \<times> rng)" where
  "fallback_letter candidates g =
     (if candidates \<noteq> [] then random_choice candidates g
      else (case py_get LETTERS 0 of Inl e \<Rightarrow> Inl e | Inr c \<Rightarrow> Inr (c, g)))"

text \<open>
  One trial of the letter loop of the fallback; the state is the sequence, the lure types
  and the random source.
\<close>

definition fallback_step ::
  "nat \<Rightarrow> int list \<Rightarrow> nat \<Rightarrow> string list \<times> string list \<times> rng \<Rightarrow>
   py_error + (string list \<times> string list \<times> rng)" where
  "fallback_step nb target_flags i st =
     (case st of (seq, lts, g) \<Rightarrow>
      (case py_get target_flags (int i) of Inl e \<Rightarrow> Inl e | Inr f \<Rightarrow>
       if f = 1 \<and> nb \<le> i then
         (case py_get seq (int i - int nb) of
            Inl e \<Rightarrow> Inl e
          | Inr letter \<Rightarrow> Inr (seq @ [letter], lts @ [''none''], g))
       else
         (case fallback_candidates nb i seq of
            Inl e \<Rightarrow> Inl e
          | Inr candidates \<Rightarrow>
              (case fallback_letter candidates g of
                 Inl e \<Rightarrow> Inl e
               | Inr (letter, g') \<Rightarrow> Inr (seq @ [letter], lts @ [''none''], g')))))"

definition fallback_plan_at ::
  "string list \<Rightarrow> int list \<Rightarrow> string list \<Rightarrow> int \<Rightarrow> nat \<Rightarrow> TrialPlan list \<Rightarrow>
   py_error + TrialPlan list" where
  "fallback_plan_at seq target_flags lts iti i plans =
     (case py_get seq (int i) of Inl e \<Rightarrow> Inl e | Inr s \<Rightarrow>
      (case py_get target_flags (int i) of Inl e \<Rightarrow> Inl e | Inr f \<Rightarrow>
       (case py_get lts (int i) of Inl e \<Rightarrow> Inl e | Inr lt \<Rightarrow>
          Inr (plans @ [\<lparr>stimulus = s, is_target = (if f = 1 then 1 else 0),
                          lure_type = lt, iti_ms = iti\<rparr>]))))"

definition fallback ::
  "nat \<Rightarrow> nat \<Rightarrow> int \<Rightarrow> int \<Rightarrow> int \<Rightarrow> rng \<Rightarrow> py_error + (TrialPlan list \<times> rng)" where
  "fallback nb nt desired mct iti g =
     (case fallback_flags nb nt desired mct g of
        Inl e \<Rightarrow> Inl e
      | Inr (target_flags, g1) \<Rightarrow>
          (case for_each (fallback_step nb target_flags) [0..<nt] ([], [], g1) of
             Inl e \<Rightarrow> Inl e
           | Inr (seq, lts, g2) \<Rightarrow>
               (case for_each (fallback_plan_at seq target_flags lts iti) [0..<nt] [] of
                  Inl e \<Rightarrow> Inl e
                | Inr plans \<Rightarrow> Inr (plans, g2))))"

section \<open>The sequence generator\<close>

text \<open>
  \<^verbatim>\<open>generate_sequence\<close>, its arguments in the order of the source; the result is the
  plan list with the random source after the call, or the exception raised.
  \<open>primary_result\<close> is the outcome of the retry loop alone: \<open>Some plans\<close> when an attempt
  returned, \<open>None\<close> when the loop ran out and the fallback takes over.
\<close>

definition desired_targets :: "rat \<Rightarrow> nat \<Rightarrow> int" where
  "desired_targets rate nt = py_round (rate * of_nat nt)"

definition primary_result ::
  "nat \<Rightarrow> nat \<Rightarrow> rat \<Rightarrow> rat \<Rightarrow> rat \<Rightarrow> int \<Rightarrow> int \<Rightarrow> int \<Rightarrow> int \<Rightarrow> bool \<Rightarrow> bool \<Rightarrow> rng \<Rightarrow>
   py_error + (TrialPlan list option \<times> rng)" where
  "primary_result nb nt rate rate_nm1 rate_np1 mct max_run iti max_attempts soft lures g =
     primary_loop (nat max_attempts) nb nt rate rate_nm1 rate_np1 mct max_run iti soft lures
       (desired_targets rate nt) g"

definition generate_sequence ::
  "nat \<Rightarrow> nat \<Rightarrow> rat \<Rightarrow> rat \<Rightarrow> rat \<Rightarrow> int \<Rightarrow> int \<Rightarrow> int \<Rightarrow> int \<Rightarrow> bool \<Rightarrow> bool \<Rightarrow> rng \<Rightarrow>
   py_error + (TrialPlan list \<times> rng)" where
  "generate_sequence nb nt rate rate_nm1 rate_np1 mct max_run iti max_attempts soft lures g =
     (case primary_result nb nt rate rate_nm1 rate_np1 mct max_run iti max_attempts soft lures g of
        Inl e \<Rightarrow> Inl e
      | Inr (Some plans, g') \<Rightarrow> Inr (plans, g')
      | Inr (None, g') \<Rightarrow> fallback nb nt (desired_targets rate nt) mct iti g')"

section \<open>Response capture and scoring in \<^verbatim>\<open>run_block\<close>\<close>

text \<open>
  One trial of \<^verbatim>\<open>run_block\<close>. The polling loop runs until the clock reaches the SOA;
  the list \<open>polls\<close> holds, for each of its iterations, the key events pending at that
  poll as (name, time in seconds). \<^verbatim>\<open>getKeys(keyList=[KEY_RESPONSE, KEY_QUIT])\<close>
  returns those of the two listed keys. \<^verbatim>\<open>graceful_quit\<close> ends in
  \<^verbatim>\<open>core.quit()\<close>, which leaves the program: the trial ends with \<open>SystemExit\<close>.
  The latch is \<^verbatim>\<open>(got_response, resp_key, rt_ms)\<close>.
\<close>

definition KEY_RESPONSE :: string where
  "KEY_RESPONSE = ''space''"

definition KEY_QUIT :: string where
  "KEY_QUIT = ''escape''"

type_synonym latch = "bool \<times> string option \<times> rat option"

definition get_keys :: "(string \<times> rat) list \<Rightarrow> (string \<times> rat) list" where
  "get_keys pending = filter (\<lambda>(k, t). k \<in> set [KEY_RESPONSE, KEY_QUIT]) pending"

text \<open>The hardware-keyboard branch looks at \<^verbatim>\<open>keys[0]\<close> only.\<close>

definition poll_hw :: "(string \<times> rat) list \<Rightarrow> latch \<Rightarrow> py_error + latch" where
  "poll_hw pending st =
     (case st of (got_response, resp_key, rt_ms) \<Rightarrow>
      (let keys = get_keys pending in
       if keys \<noteq> [] \<and> \<not> got_response then
         (case py_get keys 0 of
            Inl e \<Rightarrow> Inl e
          | Inr (name, rt) \<Rightarrow>
              if name = KEY_QUIT then Inl SystemExit
              else Inr (True, Some name, Some ((if rt = 0 then 0 else rt) * 1000)))
       else Inr st))"

text \<open>The event-module branch: \<^verbatim>\<open>for k, t in keys\<close>, leaving at the first latched key.\<close>

fun scan_keys :: "(string \<times> rat) list \<Rightarrow> py_error + (string \<times> rat) option" where
  "scan_keys [] = Inr None"
| "scan_keys ((k, t) # ks) =
     (if k = KEY_QUIT then Inl SystemExit
      else if k \<noteq> [] then Inr (Some (k, t))
      else scan_keys ks)"

definition poll_event :: "(string \<times> rat) list \<Rightarrow> latch \<Rightarrow> py_error + latch" where
  "poll_event pending st =
     (case st of (got_response, resp_key, rt_ms) \<Rightarrow>
      (let keys = get_keys pending in
       if keys \<noteq> [] \<and> \<not> got_response then
         (case scan_keys keys of
            Inl e \<Rightarrow> Inl e
          | Inr None \<Rightarrow> Inr st
          | Inr (Some (k, t)) \<Rightarrow> Inr (True, Some k, Some (t * 1000)))
       else Inr st))"

definition score :: "int \<Rightarrow> string option \<Rightarrow> int" where
  "score target resp_key =
     (let is_space = (resp_key = Some KEY_RESPONSE) in
      if (target = 1 \<and> is_space) \<or> (target = 0 \<and> \<not> is_space) then 1 else 0)"

text \<open>
  A whole trial with the hardware keyboard (\<open>use_hw\<close>) or the event module: the recorded
  \<open>correct\<close> and the final latch.
\<close>

definition run_trial ::
  "bool \<Rightarrow> TrialPlan \<Rightarrow> (string \<times> rat) list list \<Rightarrow> py_error + (int \<times> latch)" where
  "run_trial use_hw plan polls =
     (case for_each (if use_hw then poll_hw else poll_event) polls (False, None, None) of
        Inl e \<Rightarrow> Inl e
      | Inr (got_response, resp_key, rt_ms) \<Rightarrow>
          Inr (score (is_target plan) resp_key, (got_response, resp_key, rt_ms)))"

section \<open>Auxiliary notions for the proofs\<close>

text \<open>
  The invariant of the polling loop: a response is latched exactly when some poll so far
  held the response key, and the latched key is then the response key.
\<close>

definition latch_inv :: "(string \<times> rat) list list \<Rightarrow> latch \<Rightarrow> bool" where
  "latch_inv polls st \<longleftrightarrow>
     (fst st \<longrightarrow> fst (snd st) = Some KEY_RESPONSE) \<and> (\<not> fst st \<longrightarrow> fst (snd st) = None) \<and>
     (fst st \<longleftrightarrow> (\<exists>pending \<in> set polls. KEY_RESPONSE \<in> fst ` set pending))"


text \<open>
  The invariant of the primary fill loop after \<open>i\<close> trials: the three lists have \<open>i\<close>
  entries, the letters are of the alphabet, the flags are 0 or 1 and the lure types are
  the three names.
\<close>

definition fill_inv :: "nat \<Rightarrow> attempt \<Rightarrow> bool" where
  "fill_inv i st \<longleftrightarrow>
     (case st of (seq, flags, lts, freqs, g) \<Rightarrow>
        length seq = i \<and> length flags = i \<and> length lts = i \<and>
        set seq \<subseteq> set LETTERS \<and> set flags \<subseteq> {0, 1} \<and>
        set lts \<subseteq> {''none'', ''n-1'', ''n+1''})"

text \<open>What the validator demands of position \<open>i\<close> when it carries a lure.\<close>

definition lure_valid :: "nat \<Rightarrow> string list \<Rightarrow> int list \<Rightarrow> string list \<Rightarrow> nat \<Rightarrow> bool" where
  "lure_valid nb seq flags lts i \<longleftrightarrow>
     (lts ! i = ''n-1'' \<longrightarrow>
        1 < nb \<and> nb - 1 \<le> i \<and> flags ! i \<noteq> 1 \<and> seq ! i = seq ! (i - (nb - 1)) \<and>
        (nb \<le> i \<longrightarrow> seq ! i \<noteq> seq ! (i - nb))) \<and>
     (lts ! i = ''n+1'' \<longrightarrow>
        nb + 1 \<le> i \<and> flags ! i \<noteq> 1 \<and> seq ! i = seq ! (i - (nb + 1)) \<and>
        (nb \<le> i \<longrightarrow> seq ! i \<noteq> seq ! (i - nb)))"

text \<open>
  What holds of a plan list returned by an attempt of the primary loop: it has passed the
  validator.
\<close>

definition primary_ok :: "nat \<Rightarrow> nat \<Rightarrow> rat \<Rightarrow> int \<Rightarrow> int \<Rightarrow> TrialPlan list \<Rightarrow> bool" where
  "primary_ok nb nt rate mct iti plans \<longleftrightarrow>
     length plans = nt \<and>
     (\<forall>p \<in> set plans. stimulus p \<in> set LETTERS \<and> is_target p \<in> {0, 1} \<and>
        lure_type p \<in> {''none'', ''n-1'', ''n+1''} \<and> iti_ms p = iti) \<and>
     (\<forall>i < min nb nt. map is_target plans ! i \<noteq> 1) \<and>
     desired_targets rate nt - 1 \<le> sum_list (map is_target plans) \<and>
     sum_list (map is_target plans) \<le> desired_targets rate nt + 1 \<and>
     (\<forall>i < nt. lure_valid nb (map stimulus plans) (map is_target plans)
        (map lure_type plans) i) \<and>
     \<not> consec_exceeds (map is_target plans) 0 mct"

text \<open>
  The target flags of the fallback: one flag per trial, each 0 or 1, and a flag 1 only
  from position \<open>n_back\<close> on; \<open>no_adjacent\<close> says that no two neighbours are both
  targets.
\<close>

definition flags_ok :: "nat \<Rightarrow> nat \<Rightarrow> int list \<Rightarrow> bool" where
  "flags_ok nb nt flags \<longleftrightarrow>
     length flags = nt \<and> set flags \<subseteq> {0, 1} \<and> (\<forall>i < nt. flags ! i = 1 \<longrightarrow> nb \<le> i)"

definition no_adjacent :: "int list \<Rightarrow> bool" where
  "no_adjacent flags \<longleftrightarrow>
     (\<forall>i. Suc i < length flags \<longrightarrow> \<not> (flags ! i = 1 \<and> flags ! Suc i = 1))"

definition scatter_inv :: "nat \<Rightarrow> nat \<Rightarrow> int \<Rightarrow> int \<Rightarrow> int list \<Rightarrow> bool" where
  "scatter_inv nb nt desired mct flags \<longleftrightarrow>
     flags_ok nb nt flags \<and> sum_list flags \<le> max 0 desired \<and>
     (mct = 1 \<longrightarrow> no_adjacent flags)"

text \<open>What holds of a plan list built by the fallback.\<close>

definition fallback_ok :: "nat \<Rightarrow> nat \<Rightarrow> int \<Rightarrow> int \<Rightarrow> int \<Rightarrow> TrialPlan list \<Rightarrow> bool" where
  "fallback_ok nb nt desired mct iti plans \<longleftrightarrow>
     length plans = nt \<and>
     (\<forall>p \<in> set plans. stimulus p \<in> set LETTERS \<and> is_target p \<in> {0, 1} \<and>
        lure_type p = ''none'' \<and> iti_ms p = iti) \<and>
     scatter_inv nb nt desired mct (map is_target plans)"

text \<open>The invariant of the letter loop of the fallback after \<open>i\<close> trials.\<close>

definition letters_inv :: "nat \<Rightarrow> string list \<times> string list \<times> rng \<Rightarrow> bool" where
  "letters_inv i st \<longleftrightarrow>
     (case st of (seq, lts, g) \<Rightarrow>
        length seq = i \<and> length lts = i \<and> set seq \<subseteq> set LETTERS \<and> set lts \<subseteq> {''none''})"

section \<open>Basic facts\<close>

subsection \<open>Indexing\<close>

lemma py_get_nonneg:
  "0 \<le> j \<Longrightarrow> py_get xs j = (if nat j < length xs then Inr (xs ! nat j) else Inl IndexError)"
  by (auto simp: py_get_def py_index_def)

lemma py_get_in_range:
  "0 \<le> j \<Longrightarrow> j < int (length xs) \<Longrightarrow> py_get xs j = Inr (xs ! nat j)"
  by (simp add: py_get_nonneg)

lemma py_get_nat:
  "py_get xs (int k) = (if k < length xs then Inr (xs ! k) else Inl IndexError)"
  by (simp add: py_get_nonneg)

lemma py_get_last: "xs \<noteq> [] \<Longrightarrow> py_get xs (- 1) = Inr (last xs)"
proof (cases xs rule: rev_cases)
  case Nil
  assume "xs \<noteq> []"
  with Nil show ?thesis by simp
next
  case (snoc ys y)
  have "py_index (Suc (length ys)) (- 1) = Some (length ys)"
    by (simp add: py_index_def)
  then show ?thesis by (simp add: py_get_def snoc)
qed

lemma py_get_mem: "py_get xs j = Inr x \<Longrightarrow> x \<in> set xs"
  by (auto simp: py_get_def py_index_def split: if_splits)

lemma py_get_Inr_iff_nonneg:
  "0 \<le> j \<Longrightarrow> py_get xs j = Inr x \<longleftrightarrow> nat j < length xs \<and> x = xs ! nat j"
  by (auto simp: py_get_nonneg)

lemma py_set_nat:
  "py_set xs (int k) v = (if k < length xs then Inr (xs[k := v]) else Inl IndexError)"
  by (auto simp: py_set_def py_index_def)

subsection \<open>Loops\<close>

lemma for_each_append:
  "for_each body (xs @ ys) s =
     (case for_each body xs s of Inl e \<Rightarrow> Inl e | Inr s' \<Rightarrow> for_each body ys s')"
  by (induction xs arbitrary: s) (auto split: sum.splits)

lemma for_each_upt_total:
  assumes step: "\<And>i s. i < n \<Longrightarrow> I i s \<Longrightarrow> \<exists>s'. body i s = Inr s' \<and> I (Suc i) s'"
  shows "k \<le> n \<Longrightarrow> I 0 s0 \<Longrightarrow> \<exists>s'. for_each body [0..<k] s0 = Inr s' \<and> I k s'"
proof (induction k)
  case 0
  then show ?case by simp
next
  case (Suc k)
  then obtain s1 where s1: "for_each body [0..<k] s0 = Inr s1" "I k s1" by auto
  from Suc.prems(1) have "k < n" by simp
  from step[OF this s1(2)] obtain s2 where s2: "body k s1 = Inr s2" "I (Suc k) s2" by blast
  have "for_each body [0..<Suc k] s0 = Inr s2"
    by (simp add: for_each_append s1(1) s2(1))
  with s2(2) show ?case by blast
qed

subsection \<open>The random source\<close>

lemma randbelow_less: "0 < n \<Longrightarrow> fst (randbelow n g) < n"
  by (simp add: randbelow_def split: prod.splits)

lemma shuffle_from_props:
  "i < length xs \<Longrightarrow>
   length (fst (shuffle_from i xs g)) = length xs \<and> set (fst (shuffle_from i xs g)) = set xs"
proof (induction i arbitrary: xs g)
  case 0
  then show ?case by simp
next
  case (Suc i)
  obtain j g' where jg: "randbelow (Suc (Suc i)) g = (j, g')" by (cases "randbelow (Suc (Suc i)) g")
  have "fst (randbelow (Suc (Suc i)) g) < Suc (Suc i)" by (rule randbelow_less) simp
  then have j: "j < length xs" using jg Suc.prems by simp
  let ?ys = "xs[Suc i := xs ! j, j := xs ! Suc i]"
  have "mset ?ys = mset xs" using mset_swap[OF j Suc.prems] by simp
  then have set: "set ?ys = set xs" by (rule mset_eq_setD)
  have len: "length ?ys = length xs" by simp
  from Suc.prems have "i < length ?ys" by simp
  from Suc.IH[OF this, of g'] set len show ?case by (simp add: jg)
qed

lemma shuffle_props:
  "length (fst (shuffle xs g)) = length xs \<and> set (fst (shuffle xs g)) = set xs"
proof (cases xs)
  case Nil
  then show ?thesis by (simp add: shuffle_def)
next
  case (Cons a list)
  then have "length xs - 1 < length xs" by simp
  from shuffle_from_props[OF this] show ?thesis by (simp add: shuffle_def)
qed

lemma shuffle_set: "shuffle xs g = (ys, g') \<Longrightarrow> set ys = set xs"
  using shuffle_props[of xs g] by simp

lemma shuffle_length: "shuffle xs g = (ys, g') \<Longrightarrow> length ys = length xs"
  using shuffle_props[of xs g] by simp

lemma random_choice_total:
  "xs \<noteq> [] \<Longrightarrow> \<exists>x g'. random_choice xs g = Inr (x, g') \<and> x \<in> set xs"
proof -
  assume ne: "xs \<noteq> []"
  obtain j g' where jg: "randbelow (length xs) g = (j, g')" by (cases "randbelow (length xs) g")
  have "fst (randbelow (length xs) g) < length xs" using ne by (intro randbelow_less) simp
  then have "j < length xs" by (simp add: jg)
  then show ?thesis using ne by (simp add: random_choice_def jg py_get_nat)
qed

subsection \<open>The alphabet\<close>

lemma LETTERS_eq:
  "LETTERS = [''A'', ''B'', ''C'', ''D'', ''E'', ''F'', ''G'', ''H'', ''J'', ''K'', ''L'', ''M'',
     ''N'', ''P'', ''R'', ''S'', ''T'', ''U'', ''V'', ''W'', ''X'', ''Y'', ''Z'']"
  by (simp add: LETTERS_def)

lemma LETTERS_nonempty: "LETTERS \<noteq> []"
  by (simp add: LETTERS_eq)

lemma LETTERS_length: "length LETTERS = 23"
  by (simp add: LETTERS_eq)

lemma LETTERS_distinct: "distinct LETTERS"
  by (simp add: LETTERS_eq)

subsection \<open>The chooser never raises\<close>

lemma pick_weighted_mem: "pick_weighted cws r acc = Some c \<Longrightarrow> c \<in> fst ` set cws"
proof (induction cws arbitrary: acc)
  case Nil
  then show ?case by simp
next
  case (Cons cw cws)
  obtain c' w where cw: "cw = (c', w)" by (cases cw)
  show ?case
  proof (cases "r \<le> acc + of_int w")
    case True
    with Cons.prems cw show ?thesis by (simp add: Let_def)
  next
    case False
    with Cons.prems cw have "pick_weighted cws r (acc + of_int w) = Some c" by (simp add: Let_def)
    from Cons.IH[OF this] show ?thesis by simp
  qed
qed

lemma choose_letter_total:
  "\<exists>c g'. choose_letter cands freq soft g = Inr (c, g')
      \<and> c \<in> set (if cands = [] then LETTERS else cands)"
proof -
  let ?cs = "if cands = [] then LETTERS else cands"
  have ne: "?cs \<noteq> []" using LETTERS_nonempty by simp
  show ?thesis
  proof (cases soft)
    case False
    from random_choice_total[OF ne, of g] obtain x g' where
      "random_choice ?cs g = Inr (x, g')" "x \<in> set ?cs" by blast
    with False show ?thesis by (simp add: choose_letter_def Let_def)
  next
    case True
    obtain u g' where ug: "random_random g = (u, g')" by (cases "random_random g")
    let ?p = "pick_weighted (zip ?cs (soft_weights ?cs freq))
                (u * of_int (sum_list (soft_weights ?cs freq))) 0"
    show ?thesis
    proof (cases ?p)
      case None
      have "py_get ?cs (- 1) = Inr (last ?cs)" by (rule py_get_last[OF ne])
      moreover have "last ?cs \<in> set ?cs" using ne by (rule last_in_set)
      ultimately have "choose_letter cands freq soft g = Inr (last ?cs, g') \<and> last ?cs \<in> set ?cs"
        using True None ug by (simp add: choose_letter_def Let_def)
      then show ?thesis by blast
    next
      case (Some c)
      from pick_weighted_mem[OF Some] have "c \<in> set ?cs"
        by (auto dest: set_zip_leftD)
      moreover have "choose_letter cands freq soft g = Inr (c, g')"
        using True Some ug by (simp add: choose_letter_def Let_def)
      ultimately show ?thesis by blast
    qed
  qed
qed

lemma choose_letter_in:
  assumes "set cands \<subseteq> set LETTERS"
  obtains c g' where "choose_letter cands freq soft g = Inr (c, g')" "c \<in> set LETTERS"
    "cands \<noteq> [] \<Longrightarrow> c \<in> set cands"
proof -
  from choose_letter_total[of cands freq soft g] obtain c g' where
    c: "choose_letter cands freq soft g = Inr (c, g')" "c \<in> set (if cands = [] then LETTERS else cands)"
    by blast
  from c(2) assms have "c \<in> set LETTERS" by (auto split: if_splits)
  moreover from c(2) have "cands \<noteq> [] \<Longrightarrow> c \<in> set cands" by simp
  ultimately show ?thesis using that c(1) by blast
qed

subsection \<open>One trial of the primary fill never raises\<close>

lemma lure_letter_total:
  assumes "length seq = i" "1 \<le> nb" "0 < off" "off \<le> int i"
  shows "\<exists>r. lure_letter nb i off max_run seq = Inr r \<and> (\<forall>l. r = Some l \<longrightarrow> l \<in> set seq)"
proof -
  have r1: "0 \<le> int i - off" "int i - off < int (length seq)" using assms by simp_all
  from py_get_in_range[OF r1] have a: "py_get seq (int i - off) = Inr (seq ! nat (int i - off))" .
  have m: "seq ! nat (int i - off) \<in> set seq" using r1 by (intro nth_mem) linarith
  show ?thesis
  proof (cases "nb \<le> i")
    case False
    with a m show ?thesis by (simp add: lure_letter_def)
  next
    case True
    then have r2: "0 \<le> int i - int nb" "int i - int nb < int (length seq)" using assms by simp_all
    from py_get_in_range[OF r2] have "py_get seq (int i - int nb) = Inr (seq ! nat (int i - int nb))" .
    with a m True show ?thesis by (simp add: lure_letter_def)
  qed
qed

lemma lure_attempt_total:
  assumes "length seq = i" "1 \<le> nb" "guard \<Longrightarrow> 0 < off \<and> off \<le> int i"
  shows "\<exists>r g1. lure_attempt guard rate nb i off max_run seq g = Inr (r, g1)
           \<and> (\<forall>l. r = Some l \<longrightarrow> l \<in> set seq)"
proof (cases guard)
  case False
  then show ?thesis by (simp add: lure_attempt_def)
next
  case True
  obtain u g' where ug: "random_random g = (u, g')" by (cases "random_random g")
  from assms(3)[OF True] have off: "0 < off" "off \<le> int i" by simp_all
  from lure_letter_total[OF assms(1,2) off] obtain r where
    r: "lure_letter nb i off max_run seq = Inr r" "\<forall>l. r = Some l \<longrightarrow> l \<in> set seq" by blast
  show ?thesis
  proof (cases "u < rate")
    case False
    with True ug show ?thesis by (simp add: lure_attempt_def)
  next
    case u: True
    with True ug r show ?thesis by (simp add: lure_attempt_def)
  qed
qed

lemma exclude_back_total:
  assumes "length seq = i" "1 \<le> nb"
  shows "\<exists>cs. exclude_back cands nb i max_run seq = Inr cs \<and> set cs \<subseteq> set cands"
proof -
  have first: "\<exists>cs1. (if nb \<le> i
            then (case py_get seq (int i - int nb) of
                    Inl e \<Rightarrow> Inl e
                  | Inr avoid \<Rightarrow> Inr (filter (\<lambda>c. c \<noteq> avoid) cands))
            else Inr cands) = Inr cs1 \<and> set cs1 \<subseteq> set cands"
  proof (cases "nb \<le> i")
    case False
    then show ?thesis by simp
  next
    case True
    then have r2: "0 \<le> int i - int nb" "int i - int nb < int (length seq)" using assms by simp_all
    from py_get_in_range[OF r2] True show ?thesis by auto
  qed
  then obtain cs1 where cs1: "(if nb \<le> i
            then (case py_get seq (int i - int nb) of
                    Inl e \<Rightarrow> Inl e
                  | Inr avoid \<Rightarrow> Inr (filter (\<lambda>c. c \<noteq> avoid) cands))
            else Inr cands) = Inr cs1" and sub: "set cs1 \<subseteq> set cands" by blast
  show ?thesis
  proof (cases "seq = []")
    case True
    with cs1 sub show ?thesis unfolding exclude_back_def cs1 by simp
  next
    case False
    from py_get_last[OF False] have l: "py_get seq (- 1) = Inr (last seq)" .
    show ?thesis unfolding exclude_back_def cs1 using False l sub by auto
  qed
qed

lemma filler_total:
  assumes "length seq = i" "1 \<le> nb"
  shows "\<exists>c g'. filler nb max_run soft i seq freqs g = Inr (c, g') \<and> c \<in> set LETTERS"
proof -
  from exclude_back_total[OF assms] obtain cs where
    cs: "exclude_back LETTERS nb i max_run seq = Inr cs" "set cs \<subseteq> set LETTERS" by blast
  from choose_letter_in[OF cs(2)] obtain c g' where
    "choose_letter cs freqs soft g = Inr (c, g')" "c \<in> set LETTERS" by blast
  with cs(1) show ?thesis by (simp add: filler_def)
qed

lemma non_target_total:
  assumes "length seq = i" "1 \<le> nb" "set seq \<subseteq> set LETTERS"
  shows "\<exists>letter lt g'. non_target nb r1 r2 max_run soft lures i seq freqs g = Inr (letter, lt, g')
           \<and> letter \<in> set LETTERS \<and> lt \<in> {''none'', ''n-1'', ''n+1''}"
proof -
  have g1: "lures \<and> 0 < int nb - 1 \<and> int nb - 1 \<le> int i \<Longrightarrow> 0 < int nb - 1 \<and> int nb - 1 \<le> int i"
    by simp
  from lure_attempt_total[OF assms(1,2) g1] obtain a ga where
    a: "lure_attempt (lures \<and> 0 < int nb - 1 \<and> int nb - 1 \<le> int i) r1 nb i (int nb - 1) max_run seq g
          = Inr (a, ga)" "\<forall>l. a = Some l \<longrightarrow> l \<in> set seq" by blast
  show ?thesis
  proof (cases a)
    case (Some l)
    with a assms(3) have "l \<in> set LETTERS" by auto
    with a(1) Some show ?thesis by (simp add: non_target_def)
  next
    case None
    have g2: "lures \<and> int nb + 1 \<le> int i \<Longrightarrow> 0 < int nb + 1 \<and> int nb + 1 \<le> int i" by simp
    from lure_attempt_total[OF assms(1,2) g2] obtain b gb where
      b: "lure_attempt (lures \<and> int nb + 1 \<le> int i) r2 nb i (int nb + 1) max_run seq ga
            = Inr (b, gb)" "\<forall>l. b = Some l \<longrightarrow> l \<in> set seq" by blast
    show ?thesis
    proof (cases b)
      case (Some l)
      with b assms(3) have "l \<in> set LETTERS" by auto
      with a(1) None b(1) Some show ?thesis by (simp add: non_target_def)
    next
      case nb: None
      from filler_total[OF assms(1,2)] obtain c gc where
        "filler nb max_run soft i seq freqs gb = Inr (c, gc)" "c \<in> set LETTERS" by blast
      with a(1) None b(1) nb show ?thesis by (simp add: non_target_def)
    qed
  qed
qed

lemma run_repair_total:
  assumes "length seq = i" "1 \<le> nb" "letter \<in> set LETTERS"
  shows "\<exists>l g'. run_repair nb max_run soft i seq freqs letter g = Inr (l, g') \<and> l \<in> set LETTERS"
proof (cases "valid_run_limit seq letter max_run")
  case True
  with assms(3) show ?thesis by (simp add: run_repair_def)
next
  case False
  let ?safe = "filter (\<lambda>c. valid_run_limit seq c max_run) LETTERS"
  from exclude_back_total[OF assms(1,2)] obtain cs where
    cs: "exclude_back ?safe nb i max_run seq = Inr cs" "set cs \<subseteq> set ?safe" by blast
  then have "set cs \<subseteq> set LETTERS" by auto
  from choose_letter_in[OF this] obtain c g' where
    "choose_letter cs freqs soft g = Inr (c, g')" "c \<in> set LETTERS" by blast
  with False cs(1) show ?thesis by (simp add: run_repair_def)
qed

lemma plan_trial_total:
  assumes "length seq = i" "1 \<le> nb" "set seq \<subseteq> set LETTERS"
  shows "\<exists>letter flag lt g'.
           plan_trial nb tis r1 r2 max_run soft lures i seq freqs g = Inr (letter, flag, lt, g')
           \<and> letter \<in> set LETTERS \<and> flag \<in> {0, 1} \<and> lt \<in> {''none'', ''n-1'', ''n+1''}"
proof (cases "i \<in> set tis \<and> nb \<le> i")
  case True
  then have r2: "0 \<le> int i - int nb" "int i - int nb < int (length seq)" using assms by simp_all
  from py_get_in_range[OF r2] have p: "py_get seq (int i - int nb) = Inr (seq ! nat (int i - int nb))" .
  have "seq ! nat (int i - int nb) \<in> set seq" using r2 by (intro nth_mem) linarith
  with assms(3) have "seq ! nat (int i - int nb) \<in> set LETTERS" by blast
  with True p show ?thesis by (simp add: plan_trial_def)
next
  case False
  from non_target_total[OF assms] obtain letter lt g' where
    "non_target nb r1 r2 max_run soft lures i seq freqs g = Inr (letter, lt, g')"
    "letter \<in> set LETTERS" "lt \<in> {''none'', ''n-1'', ''n+1''}" by blast
  with False show ?thesis by (auto simp: plan_trial_def)
qed

text \<open>The invariant of the fill loop after \<open>i\<close> trials.\<close>

lemma fill_step_total:
  assumes "fill_inv i st" "1 \<le> nb"
  shows "\<exists>st'. fill_step nb tis r1 r2 max_run soft lures i st = Inr st' \<and> fill_inv (Suc i) st'"
proof -
  obtain seq flags lts freqs g where st: "st = (seq, flags, lts, freqs, g)" by (cases st)
  from assms(1) have inv: "length seq = i" "length flags = i" "length lts = i"
    "set seq \<subseteq> set LETTERS" "set flags \<subseteq> {0, 1}" "set lts \<subseteq> {''none'', ''n-1'', ''n+1''}"
    by (simp_all add: fill_inv_def st)
  from plan_trial_total[OF inv(1) assms(2) inv(4)]
  obtain letter flag lt g1 where
    p: "plan_trial nb tis r1 r2 max_run soft lures i seq freqs g = Inr (letter, flag, lt, g1)"
    "letter \<in> set LETTERS" "flag \<in> {0, 1}" "lt \<in> {''none'', ''n-1'', ''n+1''}" by blast
  from run_repair_total[OF inv(1) assms(2) p(2)] obtain l g2 where
    r: "run_repair nb max_run soft i seq freqs letter g1 = Inr (l, g2)" "l \<in> set LETTERS" by blast
  have "fill_step nb tis r1 r2 max_run soft lures i st
      = Inr (seq @ [l], flags @ [flag], lts @ [lt], freq_incr freqs l, g2)"
    by (simp add: fill_step_def st p(1) r(1))
  moreover have "fill_inv (Suc i) (seq @ [l], flags @ [flag], lts @ [lt], freq_incr freqs l, g2)"
    using inv p(3,4) r(2) by (simp add: fill_inv_def)
  ultimately show ?thesis by blast
qed

lemma fill_loop_total:
  assumes "1 \<le> nb"
  shows "\<exists>st'. for_each (fill_step nb tis r1 r2 max_run soft lures) [0..<nt] ([], [], [], freqs, g)
             = Inr st' \<and> fill_inv nt st'"
proof -
  have "fill_inv 0 ([], [], [], freqs, g)" by (simp add: fill_inv_def)
  from for_each_upt_total[where I = fill_inv and n = nt and k = nt
      and body = "fill_step nb tis r1 r2 max_run soft lures", OF _ _ this]
  show ?thesis using fill_step_total[OF _ assms] by blast
qed

subsection \<open>The validator\<close>

lemma early_target_eq:
  "\<forall>i \<in> set ks. i < length flags \<Longrightarrow>
   early_target flags ks = Inr (\<exists>i \<in> set ks. flags ! i = 1)"
  by (induction ks) (simp_all add: py_get_nat)

lemma immediate_repeat_total:
  "\<forall>i \<in> set ks. 0 < i \<and> i < length seq \<and> i < length flags \<and> i < length lts \<Longrightarrow>
   \<exists>b. immediate_repeat seq flags lts ks = Inr b"
proof (induction ks)
  case Nil
  then show ?case by auto
next
  case (Cons k ks)
  then have k: "0 < k" "k < length seq" "k < length flags" "k < length lts" by simp_all
  have p: "py_get seq (int k - 1) = Inr (seq ! (k - 1))"
  proof -
    have "0 \<le> int k - 1" "int k - 1 < int (length seq)" using k by simp_all
    from py_get_in_range[OF this] k(1) show ?thesis by (simp add: nat_diff_distrib)
  qed
  from Cons obtain b where "immediate_repeat seq flags lts ks = Inr b" by auto
  then show ?case using k by (auto simp: py_get_nat p)
qed

lemma lure_ok_eq:
  assumes "i < length seq" "i < length flags" "0 < off" "off \<le> int i"
  shows "lure_ok seq flags nb i off mismatch equals_target =
     Inr (if flags ! i = 1 then Some Lure_double_counted
          else if seq ! i \<noteq> seq ! nat (int i - off) then Some mismatch
          else if nb \<le> i \<and> seq ! i = seq ! (i - nb) then Some equals_target
          else None)"
proof -
  have a: "py_get seq (int i - off) = Inr (seq ! nat (int i - off))"
    using assms by (intro py_get_in_range) simp_all
  have b: "nb \<le> i \<Longrightarrow> py_get seq (int i - int nb) = Inr (seq ! (i - nb))"
  proof -
    assume le: "nb \<le> i"
    then have "0 \<le> int i - int nb" "int i - int nb < int (length seq)" using assms(1) by simp_all
    from py_get_in_range[OF this] le show ?thesis by (simp add: nat_diff_distrib)
  qed
  show ?thesis using assms(1,2) a b by (simp add: lure_ok_def py_get_nat)
qed

lemma lure_check_total:
  assumes "length flags = length seq" "length lts = length seq"
  shows "\<forall>i \<in> set ks. i < length seq \<Longrightarrow>
   \<exists>r. lure_check seq flags lts nb ks = Inr r
      \<and> (r = None \<longrightarrow> (\<forall>i \<in> set ks. lure_valid nb seq flags lts i))"
proof (induction ks)
  case Nil
  then show ?case by simp
next
  case (Cons k ks)
  then have k: "k < length seq" "k < length flags" "k < length lts" using assms by simp_all
  from Cons obtain r where r: "lure_check seq flags lts nb ks = Inr r"
    "r = None \<longrightarrow> (\<forall>i \<in> set ks. lure_valid nb seq flags lts i)" by auto
  let ?here = "(if lts ! k = ''n-1'' then
            (if \<not> (int nb - 1 \<le> int k \<and> 0 < int nb - 1) then Inr (Some Nm1_too_early)
             else lure_ok seq flags nb k (int nb - 1) Nm1_mismatch Nm1_equals_target)
          else if lts ! k = ''n+1'' then
            (if \<not> (int nb + 1 \<le> int k) then Inr (Some Np1_too_early)
             else lure_ok seq flags nb k (int nb + 1) Np1_mismatch Np1_equals_target)
          else Inr None)"
  have here: "\<exists>h. ?here = Inr h \<and> (h = None \<longrightarrow> lure_valid nb seq flags lts k)"
  proof (cases "lts ! k = ''n-1''")
    case True
    show ?thesis
    proof (cases "int nb - 1 \<le> int k \<and> 0 < int nb - 1")
      case False
      with True show ?thesis by simp
    next
      case ok: True
      then have o: "0 < int nb - 1" "int nb - 1 \<le> int k" by simp_all
      have n: "nat (int k - (int nb - 1)) = k - (nb - 1)" using ok by linarith
      from lure_ok_eq[OF k(1,2) o] True ok n show ?thesis
        by (auto simp: lure_valid_def)
    qed
  next
    case nm: False
    show ?thesis
    proof (cases "lts ! k = ''n+1''")
      case False
      with nm show ?thesis by (simp add: lure_valid_def)
    next
      case True
      show ?thesis
      proof (cases "int nb + 1 \<le> int k")
        case False
        with True nm show ?thesis by simp
      next
        case ok: True
        then have o: "0 < int nb + 1" "int nb + 1 \<le> int k" by simp_all
        have n: "nat (int k - (int nb + 1)) = k - (nb + 1)" using ok by linarith
        from lure_ok_eq[OF k(1,2) o] True nm ok n show ?thesis
          by (auto simp: lure_valid_def)
      qed
    qed
  qed
  then obtain h where h: "?here = Inr h" "h = None \<longrightarrow> lure_valid nb seq flags lts k" by blast
  show ?case
  proof (cases h)
    case (Some x)
    have "lure_check seq flags lts nb (k # ks) = Inr (Some x)"
      unfolding lure_check.simps using k(3) h(1) Some by (simp add: py_get_nat)
    then show ?thesis by simp
  next
    case None
    have "lure_check seq flags lts nb (k # ks) = Inr r"
      unfolding lure_check.simps using k(3) h(1) None r(1) by (simp add: py_get_nat)
    with r(2) h(2) None show ?thesis by simp
  qed
qed

text \<open>A validated sequence: what the answer \<open>True\<close> of the validator implies.\<close>

lemma validate_sequence_total:
  assumes "length flags = length seq" "length lts = length seq"
  shows "\<exists>ok why. validate_sequence seq flags lts nb rate tol mct = Inr (ok, why)
     \<and> (ok \<longrightarrow> (\<forall>i < min nb (length seq). flags ! i \<noteq> 1)
            \<and> py_round (rate * of_nat (length seq)) - 1 \<le> sum_list flags
            \<and> sum_list flags \<le> py_round (rate * of_nat (length seq)) + 1
            \<and> (\<forall>i < length seq. lure_valid nb seq flags lts i)
            \<and> \<not> consec_exceeds flags 0 mct)"
proof -
  let ?nt = "length seq"
  have e: "early_target flags [0..<min nb ?nt] = Inr (\<exists>i \<in> set [0..<min nb ?nt]. flags ! i = 1)"
    by (rule early_target_eq) (simp add: assms)
  have "\<exists>b. immediate_repeat seq flags lts [1..<?nt] = Inr b"
    by (rule immediate_repeat_total) (simp add: assms)
  then obtain b where b: "immediate_repeat seq flags lts [1..<?nt] = Inr b" ..
  have "\<forall>i \<in> set [0..<?nt]. i < length seq" by simp
  from lure_check_total[OF assms this] obtain r where
    r: "lure_check seq flags lts nb [0..<?nt] = Inr r"
    "r = None \<longrightarrow> (\<forall>i \<in> set [0..<?nt]. lure_valid nb seq flags lts i)" by blast
  show ?thesis
  proof (cases "\<exists>i \<in> set [0..<min nb ?nt]. flags ! i = 1")
    case True
    with e show ?thesis by (auto simp: validate_sequence_def Let_def)
  next
    case False
    then have early: "\<forall>i < min nb ?nt. flags ! i \<noteq> 1" by simp
    from False e have e': "early_target flags [0..<min nb ?nt] = Inr False" by simp
    show ?thesis
    proof (cases "py_round (rate * of_nat ?nt) - 1 \<le> sum_list flags
                  \<and> sum_list flags \<le> py_round (rate * of_nat ?nt) + 1")
      case False
      with e' show ?thesis by (auto simp: validate_sequence_def Let_def)
    next
      case cnt: True
      show ?thesis
      proof (cases "1 < nb \<and> b")
        case True
        with e' cnt b show ?thesis by (auto simp: validate_sequence_def Let_def)
      next
        case rep: False
        then have rp: "(if 1 < nb then immediate_repeat seq flags lts [1..<?nt] else Inr False)
            = Inr False" using b by auto
        show ?thesis
        proof (cases r)
          case (Some x)
          with e' cnt rp r(1) show ?thesis by (auto simp: validate_sequence_def Let_def)
        next
          case None
          with r(2) have lv: "\<forall>i < ?nt. lure_valid nb seq flags lts i" by simp
          show ?thesis
          proof (cases "consec_exceeds flags 0 mct")
            case True
            with e' cnt rp r(1) None show ?thesis by (auto simp: validate_sequence_def Let_def)
          next
            case False
            with e' cnt rp r(1) None early lv show ?thesis
              by (auto simp: validate_sequence_def Let_def)
          qed
        qed
      qed
    qed
  qed
qed

subsection \<open>Runs of consecutive targets\<close>





subsection \<open>Packaging the plans\<close>

lemma plans_total:
  assumes "length seq = nt" "length flags = nt" "length lts = nt"
  shows "for_each (plan_at seq flags lts iti) [0..<nt] [] =
     Inr (map (\<lambda>i. \<lparr>stimulus = seq ! i, is_target = flags ! i, lure_type = lts ! i,
                      iti_ms = iti\<rparr>) [0..<nt])"
proof -
  let ?f = "\<lambda>i. \<lparr>stimulus = seq ! i, is_target = flags ! i, lure_type = lts ! i, iti_ms = iti\<rparr>"
  let ?I = "\<lambda>k plans. plans = map ?f [0..<k]"
  have step: "\<And>i s. i < nt \<Longrightarrow> ?I i s \<Longrightarrow> \<exists>s'. plan_at seq flags lts iti i s = Inr s' \<and> ?I (Suc i) s'"
    using assms by (simp add: plan_at_def py_get_nat)
  have "?I 0 []" by simp
  from for_each_upt_total[where I = ?I and n = nt and k = nt
      and body = "plan_at seq flags lts iti", OF step _ this]
  show ?thesis by auto
qed

lemma plans_fields:
  assumes "length seq = nt" "length flags = nt" "length lts = nt"
    and "plans = map (\<lambda>i. \<lparr>stimulus = seq ! i, is_target = flags ! i, lure_type = lts ! i,
                      iti_ms = iti\<rparr>) [0..<nt]"
  shows "map stimulus plans = seq" "map is_target plans = flags" "map lure_type plans = lts"
    "length plans = nt" "\<forall>p \<in> set plans. iti_ms p = iti"
proof -
  have "map stimulus plans = map (\<lambda>i. seq ! i) [0..<length seq]"
    unfolding assms(4) assms(1) by (simp add: comp_def)
  then show "map stimulus plans = seq" by (simp only: map_nth)
  have "map is_target plans = map (\<lambda>i. flags ! i) [0..<length flags]"
    unfolding assms(4) assms(2) by (simp add: comp_def)
  then show "map is_target plans = flags" by (simp only: map_nth)
  have "map lure_type plans = map (\<lambda>i. lts ! i) [0..<length lts]"
    unfolding assms(4) assms(3) by (simp add: comp_def)
  then show "map lure_type plans = lts" by (simp only: map_nth)
  show "length plans = nt" unfolding assms(4) by simp
  show "\<forall>p \<in> set plans. iti_ms p = iti" unfolding assms(4) by auto
qed

subsection \<open>The primary loop\<close>

lemma attempt_once_total:
  assumes "1 \<le> nb"
  shows "\<exists>r g'. attempt_once nb nt rate r1 r2 mct max_run iti soft lures desired g = Inr (r, g')
           \<and> (\<forall>plans. r = Some plans \<longrightarrow> primary_ok nb nt rate mct iti plans)"
proof -
  obtain t g1 where t: "sample_target_indices nb nt desired mct 200 g = (t, g1)"
    by (cases "sample_target_indices nb nt desired mct 200 g")
  show ?thesis
  proof (cases t)
    case None
    with t show ?thesis by (simp add: attempt_once_def)
  next
    case (Some tis)
    from fill_loop_total[OF assms] obtain st where
      st: "for_each (fill_step nb tis r1 r2 max_run soft lures) [0..<nt] ([], [], [], init_freqs, g1)
             = Inr st" "fill_inv nt st" by blast
    obtain seq flags lts freqs g2 where sq: "st = (seq, flags, lts, freqs, g2)" by (cases st)
    from st(2) have inv: "length seq = nt" "length flags = nt" "length lts = nt"
      "set seq \<subseteq> set LETTERS" "set flags \<subseteq> {0, 1}" "set lts \<subseteq> {''none'', ''n-1'', ''n+1''}"
      by (simp_all add: fill_inv_def sq)
    have l: "length flags = length seq" "length lts = length seq" using inv by simp_all
    from validate_sequence_total[OF l] obtain ok why where
      v: "validate_sequence seq flags lts nb rate 1 mct = Inr (ok, why)"
      "ok \<longrightarrow> (\<forall>i < min nb (length seq). flags ! i \<noteq> 1)
            \<and> py_round (rate * of_nat (length seq)) - 1 \<le> sum_list flags
            \<and> sum_list flags \<le> py_round (rate * of_nat (length seq)) + 1
            \<and> (\<forall>i < length seq. lure_valid nb seq flags lts i)
            \<and> \<not> consec_exceeds flags 0 mct" by blast
    show ?thesis
    proof (cases ok)
      case False
      with t Some st(1) sq v(1) show ?thesis by (simp add: attempt_once_def)
    next
      case True
      let ?plans = "map (\<lambda>i. \<lparr>stimulus = seq ! i, is_target = flags ! i, lure_type = lts ! i,
                      iti_ms = iti\<rparr>) [0..<nt]"
      have p: "for_each (plan_at seq flags lts iti) [0..<nt] [] = Inr ?plans"
        by (rule plans_total[OF inv(1,2,3)])
      have res: "attempt_once nb nt rate r1 r2 mct max_run iti soft lures desired g
          = Inr (Some ?plans, g2)"
        using t Some st(1) sq v(1) True p by (simp add: attempt_once_def)
      note f = plans_fields[OF inv(1,2,3) refl, of iti]
      have each: "\<forall>p \<in> set ?plans. stimulus p \<in> set LETTERS \<and> is_target p \<in> {0, 1} \<and>
        lure_type p \<in> {''none'', ''n-1'', ''n+1''} \<and> iti_ms p = iti"
      proof
        fix p assume "p \<in> set ?plans"
        then obtain i where i: "i < nt" "p = \<lparr>stimulus = seq ! i, is_target = flags ! i,
            lure_type = lts ! i, iti_ms = iti\<rparr>" by auto
        have "seq ! i \<in> set seq" "flags ! i \<in> set flags" "lts ! i \<in> set lts"
          using i(1) inv(1,2,3) by simp_all
        with inv(4,5,6) have "seq ! i \<in> set LETTERS" "flags ! i \<in> {0, 1}"
          "lts ! i \<in> {''none'', ''n-1'', ''n+1''}" by blast+
        with i(2) show "stimulus p \<in> set LETTERS \<and> is_target p \<in> {0, 1} \<and>
          lure_type p \<in> {''none'', ''n-1'', ''n+1''} \<and> iti_ms p = iti" by simp
      qed
      have "primary_ok nb nt rate mct iti ?plans"
        unfolding primary_ok_def f(1,2,3) desired_targets_def
        using f(4) each v(2) True inv(1) by simp
      with res show ?thesis by blast
    qed
  qed
qed

lemma primary_loop_total:
  assumes "1 \<le> nb"
  shows "\<exists>r g'. primary_loop k nb nt rate r1 r2 mct max_run iti soft lures desired g = Inr (r, g')
           \<and> (\<forall>plans. r = Some plans \<longrightarrow> primary_ok nb nt rate mct iti plans)"
proof (induction k arbitrary: g)
  case 0
  then show ?case by simp
next
  case (Suc k)
  from attempt_once_total[OF assms] obtain r g1 where
    a: "attempt_once nb nt rate r1 r2 mct max_run iti soft lures desired g = Inr (r, g1)"
    "\<forall>plans. r = Some plans \<longrightarrow> primary_ok nb nt rate mct iti plans" by blast
  show ?case
  proof (cases r)
    case None
    with a(1) Suc.IH[of g1] show ?thesis by simp
  next
    case (Some plans)
    with a show ?thesis by simp
  qed
qed

subsection \<open>The target flags of the fallback\<close>

lemma sum_list_set_one:
  "i < length xs \<Longrightarrow> xs ! i \<in> {0, 1} \<Longrightarrow> sum_list (xs[i := (1::int)]) \<le> sum_list xs + 1"
proof (induction xs arbitrary: i)
  case Nil
  then show ?case by simp
next
  case (Cons x xs)
  show ?case
  proof (cases i)
    case 0
    with Cons.prems show ?thesis by auto
  next
    case (Suc j)
    with Cons.prems have "j < length xs" "xs ! j \<in> {0, 1}" by simp_all
    from Cons.IH[OF this] Suc show ?thesis by simp
  qed
qed

lemma neighbour_runs_eq:
  assumes "length flags = nt" "i < nt"
  shows "neighbour_runs flags nt i =
     Inr ((if 0 < i \<and> flags ! (i - 1) = 1 then 1 else 0)
        + (if i + 1 < nt \<and> flags ! (i + 1) = 1 then 1 else 0))"
proof -
  have left: "(if 0 \<le> int i - 1
            then (case py_get flags (int i - 1) of
                    Inl e \<Rightarrow> Inl e | Inr f \<Rightarrow> Inr (if f = 1 then 1 else 0))
            else Inr 0) = Inr (if 0 < i \<and> flags ! (i - 1) = 1 then 1 else (0::int))"
  proof (cases "0 < i")
    case False
    then show ?thesis by simp
  next
    case True
    then have "0 \<le> int i - 1" "int i - 1 < int (length flags)" using assms by simp_all
    from py_get_in_range[OF this] True show ?thesis by (simp add: nat_diff_distrib)
  qed
  have right: "(if i + 1 < nt
                  then (case py_get flags (int i + 1) of
                          Inl e \<Rightarrow> Inl e | Inr f \<Rightarrow> Inr (if f = 1 then 1 else 0))
                  else Inr 0) = Inr (if i + 1 < nt \<and> flags ! (i + 1) = 1 then 1 else (0::int))"
  proof (cases "i + 1 < nt")
    case False
    then show ?thesis by simp
  next
    case True
    then have "0 \<le> int i + 1" "int i + 1 < int (length flags)" using assms by simp_all
    from py_get_in_range[OF this] True show ?thesis by (simp add: nat_add_distrib)
  qed
  show ?thesis unfolding neighbour_runs_def left right by simp
qed

lemma neighbour_runs_zero:
  assumes "length flags = nt" "i < nt" "neighbour_runs flags nt i = Inr 0"
  shows "(0 < i \<longrightarrow> flags ! (i - 1) \<noteq> 1) \<and> (i + 1 < nt \<longrightarrow> flags ! (i + 1) \<noteq> 1)"
  using assms(3) unfolding neighbour_runs_eq[OF assms(1,2)]
  by (auto split: if_splits)

lemma neighbour_runs_nonneg:
  assumes "length flags = nt" "i < nt" "neighbour_runs flags nt i = Inr runs"
  shows "0 \<le> runs"
  using assms(3) unfolding neighbour_runs_eq[OF assms(1,2)]
  by (auto split: if_splits)

lemma no_adjacent_set:
  assumes "no_adjacent flags" "i < length flags"
    "0 < i \<longrightarrow> flags ! (i - 1) \<noteq> 1" "i + 1 < length flags \<longrightarrow> flags ! (i + 1) \<noteq> 1"
  shows "no_adjacent (flags[i := 1])"
  unfolding no_adjacent_def
proof (intro allI impI)
  fix j assume j: "Suc j < length (flags[i := 1])"
  then have jl: "Suc j < length flags" by simp
  from assms(1) jl have old: "\<not> (flags ! j = 1 \<and> flags ! Suc j = 1)"
    by (simp add: no_adjacent_def)
  show "\<not> (flags[i := 1] ! j = 1 \<and> flags[i := 1] ! Suc j = 1)"
  proof (cases "j = i")
    case True
    with assms(4) jl have "flags ! Suc j \<noteq> 1" by simp
    with True jl show ?thesis by simp
  next
    case ji: False
    show ?thesis
    proof (cases "Suc j = i")
      case True
      with assms(3) have "flags ! j \<noteq> 1" by auto
      with True jl show ?thesis by auto
    next
      case False
      with ji old jl show ?thesis by simp
    qed
  qed
qed

lemma scatter_inv_set:
  assumes "scatter_inv nb nt desired mct flags" "nb \<le> i" "i < nt"
    "sum_list flags < desired"
    "mct = 1 \<longrightarrow> (0 < i \<longrightarrow> flags ! (i - 1) \<noteq> 1) \<and> (i + 1 < nt \<longrightarrow> flags ! (i + 1) \<noteq> 1)"
  shows "scatter_inv nb nt desired mct (flags[i := 1])"
proof -
  from assms(1) have ok: "length flags = nt" "set flags \<subseteq> {0, 1}"
    "\<forall>i < nt. flags ! i = 1 \<longrightarrow> nb \<le> i" and s: "sum_list flags \<le> max 0 desired"
    and na: "mct = 1 \<longrightarrow> no_adjacent flags"
    by (simp_all add: scatter_inv_def flags_ok_def)
  have il: "i < length flags" using ok(1) assms(3) by simp
  then have "flags ! i \<in> set flags" by simp
  with ok(2) have fi: "flags ! i \<in> {0, 1}" by blast
  have a: "length (flags[i := 1]) = nt" using ok(1) by simp
  have b: "set (flags[i := 1]) \<subseteq> {0, 1}"
    using set_update_subset_insert[of flags i 1] ok(2) by auto
  have c: "\<forall>j < nt. flags[i := 1] ! j = 1 \<longrightarrow> nb \<le> j"
  proof (intro allI impI)
    fix j assume "j < nt" "flags[i := 1] ! j = 1"
    with ok(1,3) assms(2) show "nb \<le> j" by (cases "j = i") auto
  qed
  have d: "sum_list (flags[i := 1]) \<le> max 0 desired"
    using sum_list_set_one[OF il fi] assms(4) by simp
  have e: "mct = 1 \<longrightarrow> no_adjacent (flags[i := 1])"
  proof
    assume m: "mct = 1"
    with na have "no_adjacent flags" by simp
    from no_adjacent_set[OF this il] assms(5) m ok(1) show "no_adjacent (flags[i := 1])" by simp
  qed
  from a b c d e show ?thesis by (simp add: scatter_inv_def flags_ok_def)
qed

lemma scatter_pass_total:
  "\<forall>i \<in> set cands. nb \<le> i \<and> i < nt \<Longrightarrow> scatter_inv nb nt desired mct flags \<Longrightarrow>
   \<exists>flags'. scatter_pass cands nt desired mct flags = Inr flags'
      \<and> scatter_inv nb nt desired mct flags'"
proof (induction cands arbitrary: flags)
  case Nil
  then show ?case by simp
next
  case (Cons i cands)
  then have i: "nb \<le> i" "i < nt" and rest: "\<forall>i \<in> set cands. nb \<le> i \<and> i < nt" by simp_all
  from Cons.prems(2) have len: "length flags = nt" by (simp add: scatter_inv_def flags_ok_def)
  note IH = Cons.IH[OF rest]
  show ?case
  proof (cases "desired \<le> sum_list flags")
    case True
    with Cons.prems(2) show ?thesis by simp
  next
    case more: False
    show ?thesis
    proof (cases "mct \<le> 0")
      case True
      with more IH[OF Cons.prems(2)] show ?thesis by simp
    next
      case pos: False
      obtain runs where runs: "neighbour_runs flags nt i = Inr runs"
        using neighbour_runs_eq[OF len i(2)] by blast
      show ?thesis
      proof (cases "mct \<le> runs")
        case True
        with more pos runs IH[OF Cons.prems(2)] show ?thesis by simp
      next
        case False
        have "mct = 1 \<longrightarrow> runs = 0"
          using False neighbour_runs_nonneg[OF len i(2) runs] by auto
        then have z: "mct = 1 \<longrightarrow> (0 < i \<longrightarrow> flags ! (i - 1) \<noteq> 1) \<and> (i + 1 < nt \<longrightarrow> flags ! (i + 1) \<noteq> 1)"
          using neighbour_runs_zero[OF len i(2)] runs by auto
        have lt: "sum_list flags < desired" using more by simp
        from scatter_inv_set[OF Cons.prems(2) i lt z]
        have inv': "scatter_inv nb nt desired mct (flags[i := 1])" .
        have "py_set flags (int i) 1 = Inr (flags[i := 1])" using len i(2) by (simp add: py_set_nat)
        with more pos runs False IH[OF inv'] show ?thesis by simp
      qed
    qed
  qed
qed

lemma scatter_loop_total:
  "\<forall>i \<in> set cands. nb \<le> i \<and> i < nt \<Longrightarrow> scatter_inv nb nt desired mct flags \<Longrightarrow>
   \<exists>flags' g'. scatter_loop k cands nt desired mct flags g = Inr (flags', g')
      \<and> scatter_inv nb nt desired mct flags'"
proof (induction k arbitrary: cands flags g)
  case 0
  then show ?case by simp
next
  case (Suc k)
  show ?case
  proof (cases "sum_list flags < desired")
    case False
    with Suc.prems(2) show ?thesis by simp
  next
    case True
    obtain cands' g1 where sh: "shuffle cands g = (cands', g1)" by (cases "shuffle cands g")
    from shuffle_set[OF sh] Suc.prems(1) have c': "\<forall>i \<in> set cands'. nb \<le> i \<and> i < nt" by simp
    from scatter_pass_total[OF c' Suc.prems(2)] obtain flags1 where
      f1: "scatter_pass cands' nt desired mct flags = Inr flags1"
      "scatter_inv nb nt desired mct flags1" by blast
    from Suc.IH[OF c' f1(2)] obtain flags' g' where
      "scatter_loop k cands' nt desired mct flags1 g1 = Inr (flags', g')"
      "scatter_inv nb nt desired mct flags'" by blast
    with True sh f1(1) show ?thesis by simp
  qed
qed

lemma pool_of_total:
  "\<forall>i \<in> set ks. i < length flags \<Longrightarrow>
   \<exists>pool. pool_of flags ks = Inr pool \<and> set pool \<subseteq> set ks"
proof (induction ks)
  case Nil
  then show ?case by simp
next
  case (Cons k ks)
  then obtain pool where "pool_of flags ks = Inr pool" "set pool \<subseteq> set ks" by auto
  with Cons.prems show ?case by (auto simp: py_get_nat)
qed

lemma final_pass_total:
  "\<forall>i \<in> set pool. nb \<le> i \<and> i < nt \<Longrightarrow> scatter_inv nb nt desired mct flags \<Longrightarrow>
   sum_list flags + needed \<le> desired \<Longrightarrow>
   \<exists>flags'. final_pass pool nt needed flags = Inr flags' \<and> scatter_inv nb nt desired mct flags'"
proof (induction pool arbitrary: flags needed)
  case Nil
  then show ?case by simp
next
  case (Cons i pool)
  then have i: "nb \<le> i" "i < nt" and rest: "\<forall>i \<in> set pool. nb \<le> i \<and> i < nt" by simp_all
  from Cons.prems(2) have len: "length flags = nt" "set flags \<subseteq> {0, 1}"
    by (simp_all add: scatter_inv_def flags_ok_def)
  note IH = Cons.IH[OF rest]
  show ?case
  proof (cases "needed \<le> 0")
    case True
    with Cons.prems(2) show ?thesis by simp
  next
    case more: False
    obtain runs where runs: "neighbour_runs flags nt i = Inr runs"
      using neighbour_runs_eq[OF len(1) i(2)] by blast
    show ?thesis
    proof (cases "runs = 0")
      case False
      with more runs IH[OF Cons.prems(2,3)] show ?thesis by simp
    next
      case True
      from neighbour_runs_zero[OF len(1) i(2)] runs True
      have z: "mct = 1 \<longrightarrow> (0 < i \<longrightarrow> flags ! (i - 1) \<noteq> 1) \<and> (i + 1 < nt \<longrightarrow> flags ! (i + 1) \<noteq> 1)"
        by simp
      have lt: "sum_list flags < desired" using more Cons.prems(3) by simp
      from scatter_inv_set[OF Cons.prems(2) i lt z]
      have inv': "scatter_inv nb nt desired mct (flags[i := 1])" .
      have il: "i < length flags" using len(1) i(2) by simp
      then have "flags ! i \<in> {0, 1}" using len(2) nth_mem by blast
      from sum_list_set_one[OF il this] Cons.prems(3)
      have s': "sum_list (flags[i := 1]) + (needed - 1) \<le> desired" by simp
      have "py_set flags (int i) 1 = Inr (flags[i := 1])" using il by (simp add: py_set_nat)
      with more runs True IH[OF inv' s'] show ?thesis by simp
    qed
  qed
qed

lemma sum_list_replicate_zero: "sum_list (replicate n (0::int)) = 0"
  by (induction n) simp_all

lemma scatter_inv_init: "scatter_inv nb nt desired mct (replicate nt 0)"
  by (auto simp: scatter_inv_def flags_ok_def no_adjacent_def sum_list_replicate_zero)

lemma fallback_flags_total:
  "\<exists>flags g'. fallback_flags nb nt desired mct g = Inr (flags, g')
     \<and> scatter_inv nb nt desired mct flags"
proof -
  have c: "\<forall>i \<in> set [nb..<nt]. nb \<le> i \<and> i < nt" by simp
  from scatter_loop_total[OF c scatter_inv_init] obtain flags g1 where
    f: "scatter_loop 50 [nb..<nt] nt desired mct (replicate nt 0) g = Inr (flags, g1)"
    "scatter_inv nb nt desired mct flags" by blast
  show ?thesis
  proof (cases "sum_list flags < max 0 (desired - 1) \<and> 0 < desired - sum_list flags")
    case False
    with f show ?thesis by (auto simp: fallback_flags_def Let_def)
  next
    case True
    from f(2) have len: "length flags = nt" by (simp add: scatter_inv_def flags_ok_def)
    have "\<forall>i \<in> set [nb..<nt]. i < length flags" using len by simp
    from pool_of_total[OF this] obtain pool where
      pool: "pool_of flags [nb..<nt] = Inr pool" "set pool \<subseteq> set [nb..<nt]" by blast
    obtain pool' g2 where sh: "shuffle pool g1 = (pool', g2)" by (cases "shuffle pool g1")
    from shuffle_set[OF sh] pool(2) have p': "\<forall>i \<in> set pool'. nb \<le> i \<and> i < nt" by auto
    have "sum_list flags + (desired - sum_list flags) \<le> desired" by simp
    from final_pass_total[OF p' f(2) this] obtain flags' where
      "final_pass pool' nt (desired - sum_list flags) flags = Inr flags'"
      "scatter_inv nb nt desired mct flags'" by blast
    with True f(1) pool(1) sh show ?thesis by (auto simp: fallback_flags_def Let_def)
  qed
qed

subsection \<open>The letters of the fallback\<close>

lemma fallback_candidates_total:
  assumes "length seq = i" "1 \<le> nb"
  shows "\<exists>cs. fallback_candidates nb i seq = Inr cs \<and> set cs \<subseteq> set LETTERS"
proof -
  have first: "\<exists>cs1. (if nb \<le> i
            then (case py_get seq (int i - int nb) of
                    Inl e \<Rightarrow> Inl e
                  | Inr avoid_n \<Rightarrow> Inr (filter (\<lambda>c. c \<noteq> avoid_n) LETTERS))
            else Inr LETTERS) = Inr cs1 \<and> set cs1 \<subseteq> set LETTERS"
  proof (cases "nb \<le> i")
    case False
    then show ?thesis by simp
  next
    case True
    then have "0 \<le> int i - int nb" "int i - int nb < int (length seq)" using assms by simp_all
    from py_get_in_range[OF this] True show ?thesis by auto
  qed
  then obtain cs1 where cs1: "(if nb \<le> i
            then (case py_get seq (int i - int nb) of
                    Inl e \<Rightarrow> Inl e
                  | Inr avoid_n \<Rightarrow> Inr (filter (\<lambda>c. c \<noteq> avoid_n) LETTERS))
            else Inr LETTERS) = Inr cs1" and sub: "set cs1 \<subseteq> set LETTERS" by blast
  show ?thesis
  proof (cases "1 \<le> i \<and> cs1 \<noteq> []")
    case False
    then show ?thesis unfolding fallback_candidates_def cs1 using sub by auto
  next
    case True
    then have "0 \<le> int i - 1" "int i - 1 < int (length seq)" using assms by simp_all
    from py_get_in_range[OF this] have "py_get seq (int i - 1) = Inr (seq ! nat (int i - 1))" .
    then show ?thesis unfolding fallback_candidates_def cs1 using True sub by auto
  qed
qed

lemma fallback_letter_total:
  assumes "set cs \<subseteq> set LETTERS"
  shows "\<exists>c g'. fallback_letter cs g = Inr (c, g') \<and> c \<in> set LETTERS"
proof (cases "cs = []")
  case True
  have "py_get LETTERS 0 = Inr (LETTERS ! 0)" using LETTERS_length by (simp add: py_get_nonneg)
  moreover have "LETTERS ! 0 \<in> set LETTERS" using LETTERS_length by (intro nth_mem) simp
  ultimately show ?thesis using True by (simp add: fallback_letter_def)
next
  case False
  from random_choice_total[OF False] obtain x g' where
    "random_choice cs g = Inr (x, g')" "x \<in> set cs" by blast
  with False assms show ?thesis by (auto simp: fallback_letter_def)
qed

lemma fallback_step_total:
  assumes "letters_inv i st" "1 \<le> nb" "length flags = nt" "i < nt"
  shows "\<exists>st'. fallback_step nb flags i st = Inr st' \<and> letters_inv (Suc i) st'"
proof -
  obtain seq lts g where st: "st = (seq, lts, g)" by (cases st)
  from assms(1) have inv: "length seq = i" "length lts = i" "set seq \<subseteq> set LETTERS"
    "set lts \<subseteq> {''none''}" by (simp_all add: letters_inv_def st)
  have f: "py_get flags (int i) = Inr (flags ! i)" using assms(3,4) by (simp add: py_get_nat)
  show ?thesis
  proof (cases "flags ! i = 1 \<and> nb \<le> i")
    case True
    then have r: "0 \<le> int i - int nb" "int i - int nb < int (length seq)"
      using assms(2) inv(1) by simp_all
    from py_get_in_range[OF r] have p: "py_get seq (int i - int nb) = Inr (seq ! nat (int i - int nb))" .
    have "seq ! nat (int i - int nb) \<in> set seq" using r by (intro nth_mem) linarith
    with inv(3) have m: "seq ! nat (int i - int nb) \<in> set LETTERS" by blast
    have "fallback_step nb flags i st
        = Inr (seq @ [seq ! nat (int i - int nb)], lts @ [''none''], g)"
      using True f p by (simp add: fallback_step_def st)
    moreover have "letters_inv (Suc i) (seq @ [seq ! nat (int i - int nb)], lts @ [''none''], g)"
      using inv m by (simp add: letters_inv_def)
    ultimately show ?thesis by blast
  next
    case False
    from fallback_candidates_total[OF inv(1) assms(2)] obtain cs where
      cs: "fallback_candidates nb i seq = Inr cs" "set cs \<subseteq> set LETTERS" by blast
    from fallback_letter_total[OF cs(2)] obtain c g' where
      c: "fallback_letter cs g = Inr (c, g')" "c \<in> set LETTERS" by blast
    have "fallback_step nb flags i st = Inr (seq @ [c], lts @ [''none''], g')"
      using False f cs(1) c(1) by (auto simp: fallback_step_def st)
    moreover have "letters_inv (Suc i) (seq @ [c], lts @ [''none''], g')"
      using inv c(2) by (simp add: letters_inv_def)
    ultimately show ?thesis by blast
  qed
qed

lemma fallback_plans_total:
  assumes "length seq = nt" "length flags = nt" "length lts = nt"
  shows "for_each (fallback_plan_at seq flags lts iti) [0..<nt] [] =
     Inr (map (\<lambda>i. \<lparr>stimulus = seq ! i, is_target = (if flags ! i = 1 then 1 else 0),
                      lure_type = lts ! i, iti_ms = iti\<rparr>) [0..<nt])"
proof -
  let ?f = "\<lambda>i. \<lparr>stimulus = seq ! i, is_target = (if flags ! i = 1 then 1 else 0),
                      lure_type = lts ! i, iti_ms = iti\<rparr>"
  let ?I = "\<lambda>k plans. plans = map ?f [0..<k]"
  have step: "\<And>i s. i < nt \<Longrightarrow> ?I i s \<Longrightarrow>
      \<exists>s'. fallback_plan_at seq flags lts iti i s = Inr s' \<and> ?I (Suc i) s'"
    using assms by (simp add: fallback_plan_at_def py_get_nat)
  have "?I 0 []" by simp
  from for_each_upt_total[where I = ?I and n = nt and k = nt
      and body = "fallback_plan_at seq flags lts iti", OF step _ this]
  show ?thesis by auto
qed

lemma flag_normal: "set flags \<subseteq> {0, 1} \<Longrightarrow> i < length flags \<Longrightarrow>
   (if flags ! i = 1 then 1 else 0) = flags ! i"
proof -
  assume "set flags \<subseteq> {0, 1}" "i < length flags"
  then have "flags ! i \<in> {0, 1}" using nth_mem by blast
  then show ?thesis by auto
qed

lemma fallback_total:
  assumes "1 \<le> nb"
  shows "\<exists>plans g'. fallback nb nt desired mct iti g = Inr (plans, g')
           \<and> fallback_ok nb nt desired mct iti plans"
proof -
  from fallback_flags_total obtain flags g1 where
    fl: "fallback_flags nb nt desired mct g = Inr (flags, g1)"
    "scatter_inv nb nt desired mct flags" by blast
  from fl(2) have len: "length flags = nt" and bin: "set flags \<subseteq> {0, 1}"
    by (simp_all add: scatter_inv_def flags_ok_def)
  have i0: "letters_inv 0 ([], [], g1)" by (simp add: letters_inv_def)
  have step: "\<And>i s. i < nt \<Longrightarrow> letters_inv i s \<Longrightarrow>
      \<exists>s'. fallback_step nb flags i s = Inr s' \<and> letters_inv (Suc i) s'"
    using fallback_step_total[OF _ assms len] by blast
  from for_each_upt_total[where I = letters_inv and n = nt and k = nt
      and body = "fallback_step nb flags", OF step _ i0]
  obtain st where st: "for_each (fallback_step nb flags) [0..<nt] ([], [], g1) = Inr st"
    "letters_inv nt st" by auto
  obtain seq lts g2 where sq: "st = (seq, lts, g2)" by (cases st)
  from st(2) have inv: "length seq = nt" "length lts = nt" "set seq \<subseteq> set LETTERS"
    "set lts \<subseteq> {''none''}" by (simp_all add: letters_inv_def sq)
  let ?plans = "map (\<lambda>i. \<lparr>stimulus = seq ! i, is_target = (if flags ! i = 1 then 1 else 0),
                      lure_type = lts ! i, iti_ms = iti\<rparr>) [0..<nt]"
  have p: "for_each (fallback_plan_at seq flags lts iti) [0..<nt] [] = Inr ?plans"
    by (rule fallback_plans_total[OF inv(1) len inv(2)])
  have res: "fallback nb nt desired mct iti g = Inr (?plans, g2)"
    using fl(1) st(1) sq p by (simp add: fallback_def)
  have "?plans = map (\<lambda>i. \<lparr>stimulus = seq ! i, is_target = flags ! i,
                      lure_type = lts ! i, iti_ms = iti\<rparr>) [0..<nt]"
    using flag_normal[OF bin] len by simp
  note f = plans_fields[OF inv(1) len inv(2) this]
  have each: "\<forall>p \<in> set ?plans. stimulus p \<in> set LETTERS \<and> is_target p \<in> {0, 1} \<and>
        lure_type p = ''none'' \<and> iti_ms p = iti"
  proof
    fix p assume "p \<in> set ?plans"
    then obtain i where i: "i < nt" "p = \<lparr>stimulus = seq ! i,
        is_target = (if flags ! i = 1 then 1 else 0), lure_type = lts ! i, iti_ms = iti\<rparr>" by auto
    have "seq ! i \<in> set seq" "lts ! i \<in> set lts" using i(1) inv(1,2) by simp_all
    with inv(3,4) have "seq ! i \<in> set LETTERS" "lts ! i = ''none''" by blast+
    with i(2) show "stimulus p \<in> set LETTERS \<and> is_target p \<in> {0, 1} \<and>
        lure_type p = ''none'' \<and> iti_ms p = iti" by simp
  qed
  have "fallback_ok nb nt desired mct iti ?plans"
    unfolding fallback_ok_def f(2) using f(4) each fl(2) by simp
  with res show ?thesis by blast
qed

subsection \<open>The generator never raises\<close>

lemma generate_sequence_total:
  assumes "1 \<le> nb"
  shows "\<exists>plans g'. generate_sequence nb nt rate r1 r2 mct max_run iti max_attempts soft lures g
            = Inr (plans, g')
         \<and> ((\<exists>gp. primary_result nb nt rate r1 r2 mct max_run iti max_attempts soft lures g
                  = Inr (Some plans, gp)) \<and> primary_ok nb nt rate mct iti plans
            \<or> (\<exists>gp. primary_result nb nt rate r1 r2 mct max_run iti max_attempts soft lures g
                  = Inr (None, gp)) \<and> fallback_ok nb nt (desired_targets rate nt) mct iti plans)"
proof -
  from primary_loop_total[OF assms] obtain r gp where
    pr: "primary_result nb nt rate r1 r2 mct max_run iti max_attempts soft lures g = Inr (r, gp)"
    "\<forall>plans. r = Some plans \<longrightarrow> primary_ok nb nt rate mct iti plans"
    unfolding primary_result_def by blast
  show ?thesis
  proof (cases r)
    case (Some plans)
    with pr show ?thesis by (auto simp: generate_sequence_def)
  next
    case None
    from fallback_total[OF assms] obtain plans g' where
      "fallback nb nt (desired_targets rate nt) mct iti gp = Inr (plans, g')"
      "fallback_ok nb nt (desired_targets rate nt) mct iti plans" by blast
    with pr(1) None show ?thesis by (auto simp: generate_sequence_def)
  qed
qed

subsection \<open>A run of the generator with the default configuration\<close>

lemma floor_nine_tenths: "\<lfloor>9 / 10 :: rat\<rfloor> = 0"
  by (simp add: floor_eq_iff)

lemma desired_example: "desired_targets (3 / 10) 3 = 1"
  by (simp add: desired_targets_def py_round_def Let_def floor_nine_tenths)

lemma sample_example: "sample_target_indices 2 3 1 1 200 g = (Some [2], g)"
  by (simp add: sample_target_indices_def eval_nat_numeral shuffle_def upt_rec)

lemmas eval_defs = fill_step_def plan_trial_def non_target_def lure_attempt_def lure_letter_def
  filler_def exclude_back_def run_repair_def choose_letter_def soft_weights_def max_values_def
  freq_get_def random_random_def next_draw_def valid_run_limit_def
  py_get_def py_index_def Let_def LETTERS_eq

lemma freqs_after_A:
  "freq_incr init_freqs ''A'' = (''A'', 1) # map (\<lambda>c. (c, 0)) (tl LETTERS)"
  by (simp add: freq_incr_def freq_get_def init_freqs_def LETTERS_eq)

lemma freqs_after_AA:
  "freq_incr ((''A'', 1) # map (\<lambda>c. (c, 0)) (tl LETTERS)) ''A''
     = (''A'', 2) # map (\<lambda>c. (c, 0)) (tl LETTERS)"
  by (simp add: freq_incr_def freq_get_def)

lemma step0:
  "fill_step 2 [2] (1 / 20) (1 / 20) 2 True True 0 ([], [], [], init_freqs, [0, 100, 7])
   = Inr ([''A''], [0], [''none''], (''A'', 1) # map (\<lambda>c. (c, 0)) (tl LETTERS), [100, 7])"
proof -
  have "fill_step 2 [2] (1 / 20) (1 / 20) 2 True True 0 ([], [], [], init_freqs, [0, 100, 7])
   = Inr ([''A''], [0], [''none''], freq_incr init_freqs ''A'', [100, 7])"
    by (simp add: eval_defs init_freqs_def)
  then show ?thesis by (simp only: freqs_after_A)
qed

lemma step1:
  "fill_step 2 [2] (1 / 20) (1 / 20) 2 True True (Suc 0)
     ([''A''], [0], [''none''], (''A'', 1) # map (\<lambda>c. (c, 0)) (tl LETTERS), [100, 7])
   = Inr ([''A'', ''A''], [0, 0], [''none'', ''n-1''],
          (''A'', 2) # map (\<lambda>c. (c, 0)) (tl LETTERS), [7])"
proof -
  have "fill_step 2 [2] (1 / 20) (1 / 20) 2 True True (Suc 0)
     ([''A''], [0], [''none''], (''A'', 1) # map (\<lambda>c. (c, 0)) (tl LETTERS), [100, 7])
   = Inr ([''A'', ''A''], [0, 0], [''none'', ''n-1''],
          freq_incr ((''A'', 1) # map (\<lambda>c. (c, 0)) (tl LETTERS)) ''A'', [7])"
    by (simp add: fill_step_def plan_trial_def non_target_def lure_attempt_def lure_letter_def
        run_repair_def random_random_def next_draw_def valid_run_limit_def py_get_def py_index_def)
  then show ?thesis by (simp only: freqs_after_AA)
qed

lemma step2:
  "\<exists>freqs. fill_step 2 [2] (1 / 20) (1 / 20) 2 True True 2
     ([''A'', ''A''], [0, 0], [''none'', ''n-1''],
          (''A'', 2) # map (\<lambda>c. (c, 0)) (tl LETTERS), [7])
   = Inr ([''A'', ''A'', ''B''], [0, 0, 1], [''none'', ''n-1'', ''none''], freqs, [])"
  by (simp add: eval_defs)

lemma fill_example:
  "\<exists>freqs. for_each (fill_step 2 [2] (1 / 20) (1 / 20) 2 True True) [0..<3]
      ([], [], [], init_freqs, [0, 100, 7])
   = Inr ([''A'', ''A'', ''B''], [0, 0, 1], [''none'', ''n-1'', ''none''], freqs, [])"
proof -
  from step2 obtain freqs where "fill_step 2 [2] (1 / 20) (1 / 20) 2 True True 2
     ([''A'', ''A''], [0, 0], [''none'', ''n-1''],
          (''A'', 2) # map (\<lambda>c. (c, 0)) (tl LETTERS), [7])
   = Inr ([''A'', ''A'', ''B''], [0, 0, 1], [''none'', ''n-1'', ''none''], freqs, [])" ..
  moreover have "[0..<3] = [0, 1, 2]" by (simp add: upt_rec)
  ultimately have "for_each (fill_step 2 [2] (1 / 20) (1 / 20) 2 True True) [0..<3]
      ([], [], [], init_freqs, [0, 100, 7])
   = Inr ([''A'', ''A'', ''B''], [0, 0, 1], [''none'', ''n-1'', ''none''], freqs, [])"
    by (simp add: step0 step1)
  then show ?thesis ..
qed

lemma validate_example:
  "validate_sequence [''A'', ''A'', ''B''] [0, 0, 1] [''none'', ''n-1'', ''none''] 2 (3 / 10) 1 1
     = Inr (True, Reason_ok)"
  by (simp add: validate_sequence_def Let_def upt_rec py_get_def py_index_def lure_ok_def
      py_round_def floor_nine_tenths)

lemma plans_example:
  "for_each (plan_at [''A'', ''A'', ''B''] [0, 0, 1] [''none'', ''n-1'', ''none''] 500) [0..<3] []
   = Inr [\<lparr>stimulus = ''A'', is_target = 0, lure_type = ''none'', iti_ms = 500\<rparr>,
          \<lparr>stimulus = ''A'', is_target = 0, lure_type = ''n-1'', iti_ms = 500\<rparr>,
          \<lparr>stimulus = ''B'', is_target = 1, lure_type = ''none'', iti_ms = 500\<rparr>]"
  by (simp add: upt_rec plan_at_def py_get_def py_index_def)

lemma attempt_example:
  "attempt_once 2 3 (3 / 10) (1 / 20) (1 / 20) 1 2 500 True True 1 [0, 100, 7]
   = Inr (Some [\<lparr>stimulus = ''A'', is_target = 0, lure_type = ''none'', iti_ms = 500\<rparr>,
          \<lparr>stimulus = ''A'', is_target = 0, lure_type = ''n-1'', iti_ms = 500\<rparr>,
          \<lparr>stimulus = ''B'', is_target = 1, lure_type = ''none'', iti_ms = 500\<rparr>], [])"
proof -
  from fill_example obtain freqs where
    "for_each (fill_step 2 [2] (1 / 20) (1 / 20) 2 True True) [0..<3]
      ([], [], [], init_freqs, [0, 100, 7])
     = Inr ([''A'', ''A'', ''B''], [0, 0, 1], [''none'', ''n-1'', ''none''], freqs, [])" ..
  then show ?thesis
    by (simp add: attempt_once_def sample_example validate_example plans_example)
qed

lemma primary_loop_first:
  "attempt_once nb nt rate r1 r2 mct max_run iti soft lures desired g = Inr (Some plans, g') \<Longrightarrow>
   0 < k \<Longrightarrow>
   primary_loop k nb nt rate r1 r2 mct max_run iti soft lures desired g = Inr (Some plans, g')"
  by (cases k) simp_all

lemma generate_example:
  "generate_sequence 2 3 (3 / 10) (1 / 20) (1 / 20) 1 2 500 300 True True [0, 100, 7]
   = Inr ([\<lparr>stimulus = ''A'', is_target = 0, lure_type = ''none'', iti_ms = 500\<rparr>,
          \<lparr>stimulus = ''A'', is_target = 0, lure_type = ''n-1'', iti_ms = 500\<rparr>,
          \<lparr>stimulus = ''B'', is_target = 1, lure_type = ''none'', iti_ms = 500\<rparr>], [])"
proof -
  have "primary_loop (nat 300) 2 3 (3 / 10) (1 / 20) (1 / 20) 1 2 500 True True 1 [0, 100, 7]
   = Inr (Some [\<lparr>stimulus = ''A'', is_target = 0, lure_type = ''none'', iti_ms = 500\<rparr>,
          \<lparr>stimulus = ''A'', is_target = 0, lure_type = ''n-1'', iti_ms = 500\<rparr>,
          \<lparr>stimulus = ''B'', is_target = 1, lure_type = ''none'', iti_ms = 500\<rparr>], [])"
    by (rule primary_loop_first[OF attempt_example]) simp
  then show ?thesis
    unfolding generate_sequence_def primary_result_def desired_example by simp
qed

subsection \<open>Runs of the generator that end in the fallback\<close>

text \<open>
  A pass of the sampler appends at most one index per position it visits, so it cannot reach
  a desired count above the number of positions; the 200 sampler attempts and every attempt of
  the primary loop then fail. With an exhausted random source every draw is 0.
\<close>

lemma sample_pass_length:
  "length (sample_pass ps chosen desired mct) \<le> length chosen + length ps"
proof (induction ps chosen desired mct rule: sample_pass.induct)
  case (1 chosen desired mct)
  then show ?case by simp
next
  case (2 i ps chosen desired mct)
  show ?case
  proof (cases "desired \<le> int (length chosen)")
    case True
    then show ?thesis by simp
  next
    case False
    note d = this
    show ?thesis
    proof (cases "mct \<le> 0")
      case True
      with d 2(1) have h: "length (sample_pass ps (chosen @ [i]) desired mct)
              \<le> length (chosen @ [i]) + length ps" by blast
      from d True have e: "sample_pass (i # ps) chosen desired mct
              = sample_pass ps (chosen @ [i]) desired mct" by simp
      from h show ?thesis unfolding e by (simp del: sample_pass.simps)
    next
      case False
      note m = this
      show ?thesis
      proof (cases "mct = 1 \<and> chosen \<noteq> [] \<and> int i - int (last chosen) = 1")
        case True
        with d m 2(2) have h: "length (sample_pass ps chosen desired mct) \<le> length chosen + length ps"
          by blast
        from d m True have e: "sample_pass (i # ps) chosen desired mct
            = sample_pass ps chosen desired mct" by simp
        from h show ?thesis unfolding e by (simp del: sample_pass.simps)
      next
        case False
        note a = this
        show ?thesis
        proof (cases "chosen \<noteq> [] \<and> mct < chosen_run chosen i (length chosen) 1")
          case True
          with d m a 2(3) have h: "length (sample_pass ps chosen desired mct) \<le> length chosen + length ps"
            by blast
          from d m a True have e: "sample_pass (i # ps) chosen desired mct
              = sample_pass ps chosen desired mct" by auto
          from h show ?thesis unfolding e by (simp del: sample_pass.simps)
        next
          case False
          with d m a 2(4) have h: "length (sample_pass ps (chosen @ [i]) desired mct)
              \<le> length (chosen @ [i]) + length ps"
            by blast
          from d m a False have e: "sample_pass (i # ps) chosen desired mct
              = sample_pass ps (chosen @ [i]) desired mct" by auto
          from h show ?thesis unfolding e by (simp del: sample_pass.simps)
        qed
      qed
    qed
  qed
qed

lemma shuffle_from_empty_tape: "snd (shuffle_from i xs []) = []"
  by (induction i arbitrary: xs) (simp_all add: randbelow_def next_draw_def)

lemma shuffle_empty_tape: "shuffle xs [] = (fst (shuffle xs []), [])"
  using shuffle_from_empty_tape[of "length xs - 1" xs] by (simp add: shuffle_def prod_eq_iff)

lemma sample_attempts_too_few:
  "int (length ps) < desired \<Longrightarrow> sample_attempts k ps desired mct [] = (None, [])"
proof (induction k arbitrary: ps)
  case 0
  then show ?case by simp
next
  case (Suc k)
  let ?ps = "fst (shuffle ps [])"
  have sh: "shuffle ps [] = (?ps, [])" by (rule shuffle_empty_tape)
  have len: "length ?ps = length ps" using shuffle_length[OF sh] .
  have "length (sample_pass ?ps [] desired mct) \<le> length ?ps"
    using sample_pass_length[of ?ps "[]" desired mct] by simp
  with len Suc.prems have ne: "int (length (sample_pass ?ps [] desired mct)) \<noteq> desired" by simp
  have "int (length ?ps) < desired" using len Suc.prems by simp
  from Suc.IH[OF this] have r: "sample_attempts k ?ps desired mct [] = (None, [])" .
  have "sample_attempts (Suc k) ps desired mct []
     = (case (?ps, []) of (positions', g') \<Rightarrow>
        (let chosen = sample_pass positions' [] desired mct in
         if int (length chosen) = desired then (Some (sort chosen), g')
         else sample_attempts k positions' desired mct g'))"
    using sh by (simp only: sample_attempts.simps)
  with ne r show ?case by (simp add: Let_def)
qed

lemma primary_loop_too_few:
  assumes "int (nt - nb) < desired"
  shows "primary_loop k nb nt rate r1 r2 mct max_run iti soft lures desired [] = Inr (None, [])"
proof -
  have "0 < desired" using assms by simp
  moreover have "int (length [nb..<nt]) < desired" using assms by simp
  ultimately have "sample_target_indices nb nt desired mct 200 [] = (None, [])"
    by (simp add: sample_target_indices_def sample_attempts_too_few)
  then have a: "attempt_once nb nt rate r1 r2 mct max_run iti soft lures desired [] = Inr (None, [])"
    by (simp add: attempt_once_def)
  show ?thesis by (induction k) (simp_all add: a)
qed

lemma desired_all_four: "desired_targets 1 4 = 4"
  by (simp add: desired_targets_def py_round_def Let_def)

text \<open>
  N-back 3, four trials, target rate 1: four targets are asked for and position 3 is the only
  one that may carry a target.
\<close>

lemmas flag_eval = neighbour_runs_def py_get_def py_set_def py_index_def

lemma shuffle_single: "shuffle [x] g = ([x], g)"
  by (simp add: shuffle_def)

lemma scatter_last_stuck:
  "scatter_loop k [3] 4 4 1 [0, 0, 0, 1] [] = Inr ([0, 0, 0, 1], [])"
  by (induction k) (simp_all add: shuffle_single flag_eval)

lemma flags_last_only: "fallback_flags 3 4 4 1 [] = Inr ([0, 0, 0, 1], [])"
proof -
  have c: "[3..<4] = [3::nat]" by (simp add: upt_rec)
  have "scatter_loop (Suc k) [3] 4 4 1 [0, 0, 0, 0] [] = Inr ([0, 0, 0, 1], [])" for k
    by (simp add: shuffle_single flag_eval scatter_last_stuck)
  from this[of 49] have s: "scatter_loop 50 [3] 4 4 1 (replicate 4 0) [] = Inr ([0, 0, 0, 1], [])"
    by (simp add: eval_nat_numeral)
  show ?thesis
    by (simp add: fallback_flags_def c s Let_def py_get_def py_index_def shuffle_def)
qed

lemmas letter_eval = fallback_step_def fallback_candidates_def fallback_letter_def
  random_choice_def randbelow_def next_draw_def py_get_def py_index_def LETTERS_eq

lemma letters_last_only:
  "for_each (fallback_step 3 [0, 0, 0, 1]) [0..<4] ([], [], [])
   = Inr ([''A'', ''B'', ''A'', ''A''], [''none'', ''none'', ''none'', ''none''], [])"
proof -
  have u: "[0..<4] = [0, Suc 0, 2, 3]" by (simp add: upt_rec)
  have a: "fallback_step 3 [0, 0, 0, 1] 0 ([], [], []) = Inr ([''A''], [''none''], [])"
    by (simp add: letter_eval)
  have b: "fallback_step 3 [0, 0, 0, 1] (Suc 0) ([''A''], [''none''], [])
      = Inr ([''A'', ''B''], [''none'', ''none''], [])"
    by (simp add: letter_eval)
  have c: "fallback_step 3 [0, 0, 0, 1] 2 ([''A'', ''B''], [''none'', ''none''], [])
      = Inr ([''A'', ''B'', ''A''], [''none'', ''none'', ''none''], [])"
    by (simp add: letter_eval)
  have d: "fallback_step 3 [0, 0, 0, 1] 3 ([''A'', ''B'', ''A''], [''none'', ''none'', ''none''], [])
      = Inr ([''A'', ''B'', ''A'', ''A''], [''none'', ''none'', ''none'', ''none''], [])"
    by (simp add: fallback_step_def py_get_def py_index_def)
  show ?thesis by (simp add: u a b c d)
qed

lemma plans_last_only:
  "for_each (fallback_plan_at [''A'', ''B'', ''A'', ''A''] [0, 0, 0, 1]
       [''none'', ''none'', ''none'', ''none''] 500) [0..<4] []
   = Inr [\<lparr>stimulus = ''A'', is_target = 0, lure_type = ''none'', iti_ms = 500\<rparr>,
          \<lparr>stimulus = ''B'', is_target = 0, lure_type = ''none'', iti_ms = 500\<rparr>,
          \<lparr>stimulus = ''A'', is_target = 0, lure_type = ''none'', iti_ms = 500\<rparr>,
          \<lparr>stimulus = ''A'', is_target = 1, lure_type = ''none'', iti_ms = 500\<rparr>]"
  by (simp add: upt_rec fallback_plan_at_def py_get_def py_index_def)

lemma generate_last_only:
  "generate_sequence 3 4 1 (1 / 20) (1 / 20) 1 2 500 300 True True []
   = Inr ([\<lparr>stimulus = ''A'', is_target = 0, lure_type = ''none'', iti_ms = 500\<rparr>,
          \<lparr>stimulus = ''B'', is_target = 0, lure_type = ''none'', iti_ms = 500\<rparr>,
          \<lparr>stimulus = ''A'', is_target = 0, lure_type = ''none'', iti_ms = 500\<rparr>,
          \<lparr>stimulus = ''A'', is_target = 1, lure_type = ''none'', iti_ms = 500\<rparr>], [])"
proof -
  have "int (4 - 3) < (4::int)" by simp
  from primary_loop_too_few[OF this]
  have p: "primary_result 3 4 1 (1 / 20) (1 / 20) 1 2 500 300 True True [] = Inr (None, [])"
    by (simp add: primary_result_def desired_all_four)
  have f: "fallback 3 4 4 1 500 [] = Inr ([\<lparr>stimulus = ''A'', is_target = 0, lure_type = ''none'', iti_ms = 500\<rparr>,
          \<lparr>stimulus = ''B'', is_target = 0, lure_type = ''none'', iti_ms = 500\<rparr>,
          \<lparr>stimulus = ''A'', is_target = 0, lure_type = ''none'', iti_ms = 500\<rparr>,
          \<lparr>stimulus = ''A'', is_target = 1, lure_type = ''none'', iti_ms = 500\<rparr>], [])"
    by (simp add: fallback_def flags_last_only letters_last_only plans_last_only)
  show ?thesis by (simp add: generate_sequence_def p desired_all_four f)
qed










section \<open>The letter chooser: weights and draw\<close>

lemma max_values_eq:
  "max_values freq = (if freq = [] then 1 else Max (snd ` set freq))"
proof (cases freq)
  case Nil
  then show ?thesis by (simp add: max_values_def)
next
  case (Cons kv kvs)
  have "fold max (map snd kvs) (snd kv) = Max (set (snd kv # map snd kvs))"
    by (rule Max.set_eq_fold[symmetric])
  then show ?thesis using Cons by (simp add: max_values_def)
qed

lemma soft_weights_eq:
  "soft_weights candidates freq =
     map (\<lambda>c. max (max_values freq - freq_get freq c + 1) 1) candidates"
  by (simp add: soft_weights_def)

lemma soft_weights_pos: "w \<in> set (soft_weights candidates freq) \<Longrightarrow> 1 \<le> w"
  by (auto simp: soft_weights_def)

lemma random_random_range:
  "0 \<le> fst (random_random g) \<and> fst (random_random g) < 1"
proof -
  obtain k g' where kg: "next_draw g = (k, g')" by (cases "next_draw g")
  have "k mod 2 ^ 53 < (2::nat) ^ 53" by simp
  then have "(of_nat (k mod 2 ^ 53) :: rat) < of_nat (2 ^ 53)"
    by (simp only: of_nat_less_iff)
  then have "(of_nat (k mod 2 ^ 53) :: rat) / 2 ^ 53 < 1" by simp
  then show ?thesis by (simp add: random_random_def kg)
qed

lemma pick_weighted_first_reaching:
  "length cs = length ws \<Longrightarrow>
   pick_weighted (zip cs ws) r acc = map_option (\<lambda>k. cs ! k) (first_reaching ws (r - acc))"
proof (induction ws arbitrary: cs acc)
  case Nil
  then show ?case by simp
next
  case (Cons w ws)
  then obtain c cs' where cs: "cs = c # cs'" "length cs' = length ws"
    by (cases cs) auto
  have "pick_weighted (zip cs' ws) r (acc + of_int w)
        = map_option (\<lambda>k. cs' ! k) (first_reaching ws (r - (acc + of_int w)))"
    by (rule Cons.IH[OF cs(2)])
  then show ?case
    by (simp add: cs Let_def algebra_simps option.map_comp comp_def)
qed

lemma first_reaching_bound:
  "first_reaching ws r = Some k \<Longrightarrow> k < length ws"
proof (induction ws arbitrary: r k)
  case Nil
  then show ?case by simp
next
  case (Cons w ws)
  then show ?case by (auto split: if_splits)
qed

lemma first_reaching_reaches:
  "first_reaching ws r = Some k \<Longrightarrow> r \<le> of_int (sum_list (take (Suc k) ws))"
proof (induction ws arbitrary: r k)
  case Nil
  then show ?case by simp
next
  case (Cons w ws)
  show ?case
  proof (cases "r \<le> of_int w")
    case True
    with Cons.prems show ?thesis by simp
  next
    case False
    with Cons.prems obtain k' where k': "first_reaching ws (r - of_int w) = Some k'" "k = Suc k'"
      by auto
    from Cons.IH[OF k'(1)] show ?thesis by (simp add: k'(2))
  qed
qed

lemma first_reaching_least:
  "first_reaching ws r = Some k \<Longrightarrow> j < k \<Longrightarrow> of_int (sum_list (take (Suc j) ws)) < r"
proof (induction ws arbitrary: r k j)
  case Nil
  then show ?case by simp
next
  case (Cons w ws)
  show ?case
  proof (cases "r \<le> of_int w")
    case True
    with Cons.prems show ?thesis by simp
  next
    case False
    with Cons.prems obtain k' where k': "first_reaching ws (r - of_int w) = Some k'" "k = Suc k'"
      by auto
    show ?thesis
    proof (cases j)
      case 0
      with False show ?thesis by simp
    next
      case (Suc j')
      with Cons.prems(2) k'(2) have "j' < k'" by simp
      from Cons.IH[OF k'(1) this] show ?thesis by (simp add: Suc)
    qed
  qed
qed

lemma first_reaching_exists:
  "ws \<noteq> [] \<Longrightarrow> r \<le> of_int (sum_list ws) \<Longrightarrow> \<exists>k. first_reaching ws r = Some k"
proof (induction ws arbitrary: r)
  case Nil
  then show ?case by simp
next
  case (Cons w ws)
  show ?case
  proof (cases "r \<le> of_int w")
    case True
    then show ?thesis by simp
  next
    case False
    with Cons.prems(2) have "ws \<noteq> []" by (cases ws) auto
    moreover from Cons.prems(2) have "r - of_int w \<le> of_int (sum_list ws)" by simp
    ultimately obtain k where "first_reaching ws (r - of_int w) = Some k"
      using Cons.IH by blast
    with False show ?thesis by simp
  qed
qed

lemma sum_list_pos:
  "ws \<noteq> [] \<Longrightarrow> \<forall>w \<in> set ws. (1::int) \<le> w \<Longrightarrow> 0 < sum_list ws"
proof (induction ws)
  case Nil
  then show ?case by simp
next
  case (Cons w ws)
  have "0 \<le> sum_list ws" using Cons.prems(2) by (intro sum_list_nonneg) auto
  moreover have "1 \<le> w" using Cons.prems(2) by simp
  ultimately show ?case by simp
qed

text \<open>
  Claim C7, as amended. For every non-empty candidate list and every frequency map, with
  soft balancing on: each candidate \<open>c\<close> gets the weight \<open>max (M - freq c + 1) 1\<close>, where
  \<open>M\<close> is the highest count in the whole frequency map (1 if the map is empty); the draw
  is \<open>u\<close> times the sum of the weights for a fraction \<open>0 \<le> u < 1\<close>; the chooser returns,
  without raising, the first candidate whose cumulative weight reaches or exceeds the
  draw, and consumes one draw of the random source.
\<close>

theorem choose_letter_soft_balance:
  assumes "candidates \<noteq> []"
  shows "soft_weights candidates freq =
           map (\<lambda>c. max ((if freq = [] then 1 else Max (snd ` set freq)) - freq_get freq c + 1) 1)
             candidates
       \<and> 0 \<le> fst (random_random g) \<and> fst (random_random g) < 1
       \<and> (\<exists>k < length candidates.
            choose_letter candidates freq True g = Inr (candidates ! k, snd (random_random g))
          \<and> fst (random_random g) * of_int (sum_list (soft_weights candidates freq))
              \<le> of_int (sum_list (take (Suc k) (soft_weights candidates freq)))
          \<and> (\<forall>j < k. of_int (sum_list (take (Suc j) (soft_weights candidates freq)))
                 < fst (random_random g) * of_int (sum_list (soft_weights candidates freq))))"
proof -
  let ?ws = "soft_weights candidates freq"
  obtain u g' where ug: "random_random g = (u, g')" by (cases "random_random g")
  let ?r = "u * of_int (sum_list ?ws)"
  have len: "length candidates = length ?ws" by (simp add: soft_weights_def)
  have ne: "?ws \<noteq> []" using assms by (simp add: soft_weights_def)
  have pos: "0 < sum_list ?ws"
    using sum_list_pos[OF ne] soft_weights_pos by blast
  have u: "0 \<le> u" "u < 1" using random_random_range[of g] by (simp_all add: ug)
  have "?r \<le> 1 * of_int (sum_list ?ws)"
    using u(2) pos by (intro mult_right_mono) simp_all
  then have "?r \<le> of_int (sum_list ?ws)" by simp
  from first_reaching_exists[OF ne this] obtain k where k: "first_reaching ?ws ?r = Some k" ..
  have kl: "k < length candidates" using first_reaching_bound[OF k] len by simp
  have "pick_weighted (zip candidates ?ws) ?r 0 = Some (candidates ! k)"
    using pick_weighted_first_reaching[OF len, of ?r 0] k by simp
  then have ch: "choose_letter candidates freq True g = Inr (candidates ! k, g')"
    using assms by (simp add: choose_letter_def Let_def ug)
  have w: "?ws = map (\<lambda>c. max ((if freq = [] then 1 else Max (snd ` set freq)) - freq_get freq c + 1) 1)
             candidates"
    by (simp only: soft_weights_eq max_values_eq)
  have reach: "?r \<le> of_int (sum_list (take (Suc k) ?ws))"
    by (rule first_reaching_reaches[OF k])
  have least: "\<forall>j<k. of_int (sum_list (take (Suc j) ?ws)) < ?r"
    using first_reaching_least[OF k] by blast
  have ex: "\<exists>k < length candidates.
            choose_letter candidates freq True g = Inr (candidates ! k, g')
          \<and> ?r \<le> of_int (sum_list (take (Suc k) ?ws))
          \<and> (\<forall>j < k. of_int (sum_list (take (Suc j) ?ws)) < ?r)"
    using kl ch reach least by blast
  show ?thesis
    unfolding ug fst_conv snd_conv using w u ex by blast
qed

lemma draw_five_eighths: "random_random [5629499534213120] = (5 / 8, [])"
  by (simp add: random_random_def next_draw_def)

lemma weights_ab:
  "soft_weights [''A'', ''B''] [(''A'', 0), (''B'', 1), (''C'', 3)] = [4, 3]"
  by (simp add: soft_weights_def max_values_def freq_get_def)

lemma spec_weights_ab:
  "spec_weights [''A'', ''B''] [(''A'', 0), (''B'', 1), (''C'', 3)] = [2, 1]"
  by (simp add: spec_weights_def spec_max_freq_def freq_get_def)


text \<open>
  Claim C7 as stated fails: with candidates A, B and counts A: 0, B: 1, C: 3 the source
  weighs against the count of C, which is no candidate, giving the weights 4 and 3 where
  the claim's maximum among the candidates gives 2 and 1; at the draw \<open>u = 5/8\<close> the
  source returns B and the chooser of the claim returns A.
\<close>

theorem choose_letter_spec_counterexample:
  "soft_weights [''A'', ''B''] [(''A'', 0), (''B'', 1), (''C'', 3)] = [4, 3]
   \<and> spec_weights [''A'', ''B''] [(''A'', 0), (''B'', 1), (''C'', 3)] = [2, 1]
   \<and> choose_letter [''A'', ''B''] [(''A'', 0), (''B'', 1), (''C'', 3)] True [5629499534213120]
       = Inr (''B'', [])
   \<and> spec_choose_letter [''A'', ''B''] [(''A'', 0), (''B'', 1), (''C'', 3)] [5629499534213120]
       = Some ''A''"
proof -
  have c: "choose_letter [''A'', ''B''] [(''A'', 0), (''B'', 1), (''C'', 3)] True [5629499534213120]
       = Inr (''B'', [])"
    by (simp add: choose_letter_def Let_def weights_ab draw_five_eighths)
  have s: "spec_choose_letter [''A'', ''B''] [(''A'', 0), (''B'', 1), (''C'', 3)] [5629499534213120]
       = Some ''A''"
    by (simp add: spec_choose_letter_def spec_weights_ab draw_five_eighths)
  from c s weights_ab spec_weights_ab show ?thesis by simp
qed

text \<open>The amended claim at that input: the chooser returns the candidate at position 1.\<close>

theorem choose_letter_soft_balance_witness:
  "[''A'', ''B''] \<noteq> []
   \<and> (\<exists>k<2.
         choose_letter [''A'', ''B''] [(''A'', 0), (''B'', 1), (''C'', 3)] True [5629499534213120]
           = Inr ([''A'', ''B''] ! k, [])
       \<and> (5 / 8 :: rat) * of_int (sum_list [4, 3]) \<le> of_int (sum_list (take (Suc k) [4, 3]))
       \<and> (\<forall>j<k. of_int (sum_list (take (Suc j) [4, 3])) < (5 / 8 :: rat) * of_int (sum_list [4, 3])))"
proof -
  have h: "[''A'', ''B''] \<noteq> []" by simp
  from choose_letter_soft_balance[OF h, of "[(''A'', 0), (''B'', 1), (''C'', 3)]" "[5629499534213120]"]
  have "\<exists>k<length [''A'', ''B''].
         choose_letter [''A'', ''B''] [(''A'', 0), (''B'', 1), (''C'', 3)] True [5629499534213120]
           = Inr ([''A'', ''B''] ! k, snd (random_random [5629499534213120]))
       \<and> fst (random_random [5629499534213120])
            * of_int (sum_list (soft_weights [''A'', ''B''] [(''A'', 0), (''B'', 1), (''C'', 3)]))
          \<le> of_int (sum_list (take (Suc k)
                (soft_weights [''A'', ''B''] [(''A'', 0), (''B'', 1), (''C'', 3)])))
       \<and> (\<forall>j<k. of_int (sum_list (take (Suc j)
                (soft_weights [''A'', ''B''] [(''A'', 0), (''B'', 1), (''C'', 3)])))
            < fst (random_random [5629499534213120])
              * of_int (sum_list (soft_weights [''A'', ''B''] [(''A'', 0), (''B'', 1), (''C'', 3)])))"
    by blast
  then have "\<exists>k<2.
         choose_letter [''A'', ''B''] [(''A'', 0), (''B'', 1), (''C'', 3)] True [5629499534213120]
           = Inr ([''A'', ''B''] ! k, [])
       \<and> (5 / 8 :: rat) * of_int (sum_list [4, 3]) \<le> of_int (sum_list (take (Suc k) [4, 3]))
       \<and> (\<forall>j<k. of_int (sum_list (take (Suc j) [4, 3])) < (5 / 8 :: rat) * of_int (sum_list [4, 3]))"
    unfolding weights_ab draw_five_eighths fst_conv snd_conv by (simp add: numeral_2_eq_2)
  with h show ?thesis by blast
qed

section \<open>Scoring\<close>

lemma key_response_facts: "KEY_RESPONSE \<noteq> KEY_QUIT" "KEY_RESPONSE \<noteq> []"
  by (simp_all add: KEY_RESPONSE_def KEY_QUIT_def)

lemma get_keys_names:
  "(k, t) \<in> set (get_keys pending) \<Longrightarrow> k = KEY_RESPONSE \<or> k = KEY_QUIT"
  by (simp add: get_keys_def)

lemma get_keys_subset: "x \<in> set (get_keys pending) \<Longrightarrow> x \<in> set pending"
  by (simp add: get_keys_def)

lemma get_keys_response:
  "(KEY_RESPONSE, t) \<in> set pending \<Longrightarrow> get_keys pending \<noteq> []"
  by (simp add: get_keys_def filter_empty_conv) blast

lemma scan_keys_listed:
  assumes "keys = (k, t) # ks" "k = KEY_RESPONSE \<or> k = KEY_QUIT" "scan_keys keys = Inr r"
  shows "k = KEY_RESPONSE \<and> r = Some (k, t)"
proof -
  from assms(1,3) have nq: "k \<noteq> KEY_QUIT" by (auto split: if_splits)
  with assms(2) have k: "k = KEY_RESPONSE" by simp
  with assms(1,3) nq key_response_facts(2) show ?thesis by simp
qed

lemma latch_inv_keep:
  assumes "latch_inv polls st" "fst st \<or> get_keys pending = []"
  shows "latch_inv (polls @ [pending]) st"
proof -
  have "KEY_RESPONSE \<in> fst ` set pending \<Longrightarrow> fst st"
  proof -
    assume "KEY_RESPONSE \<in> fst ` set pending"
    then obtain t where "(KEY_RESPONSE, t) \<in> set pending" by force
    then have "get_keys pending \<noteq> []" by (rule get_keys_response)
    with assms(2) show "fst st" by simp
  qed
  with assms(1) show ?thesis unfolding latch_inv_def by auto
qed

lemma latch_inv_set:
  assumes "(KEY_RESPONSE, t) \<in> set pending"
  shows "latch_inv (polls @ [pending]) (True, Some KEY_RESPONSE, rt)"
proof -
  from assms have "KEY_RESPONSE \<in> fst ` set pending" by force
  then show ?thesis unfolding latch_inv_def by simp
qed

lemma poll_hw_inv:
  assumes "latch_inv polls st" "poll_hw pending st = Inr st'"
  shows "latch_inv (polls @ [pending]) st'"
proof -
  obtain got key rt where st: "st = (got, key, rt)" by (cases st)
  show ?thesis
  proof (cases "get_keys pending \<noteq> [] \<and> \<not> got")
    case False
    with assms(2) have st': "st' = st" by (auto simp: poll_hw_def st Let_def)
    from False have "fst st \<or> get_keys pending = []" by (auto simp: st)
    from latch_inv_keep[OF assms(1) this] show ?thesis by (simp add: st')
  next
    case True
    then obtain name t ks where ks: "get_keys pending = (name, t) # ks"
      by (cases "get_keys pending") auto
    then have m: "(name, t) \<in> set (get_keys pending)" by simp
    from get_keys_names[OF m] have nm: "name = KEY_RESPONSE \<or> name = KEY_QUIT" .
    from get_keys_subset[OF m] have mem: "(name, t) \<in> set pending" .
    from assms(2) True have "(if name = KEY_QUIT then Inl SystemExit
        else Inr (True, Some name, Some ((if t = 0 then 0 else t) * 1000))) = Inr st'"
      by (simp add: poll_hw_def st Let_def ks py_get_def py_index_def)
    then have "name \<noteq> KEY_QUIT"
      and st': "st' = (True, Some name, Some ((if t = 0 then 0 else t) * 1000))"
      by (simp_all split: if_splits)
    with nm have n: "name = KEY_RESPONSE" by simp
    from latch_inv_set[OF mem[unfolded n]] show ?thesis by (simp add: st' n)
  qed
qed

lemma poll_event_inv:
  assumes "latch_inv polls st" "poll_event pending st = Inr st'"
  shows "latch_inv (polls @ [pending]) st'"
proof -
  obtain got key rt where st: "st = (got, key, rt)" by (cases st)
  show ?thesis
  proof (cases "get_keys pending \<noteq> [] \<and> \<not> got")
    case False
    with assms(2) have st': "st' = st" by (auto simp: poll_event_def st Let_def)
    from False have "fst st \<or> get_keys pending = []" by (auto simp: st)
    from latch_inv_keep[OF assms(1) this] show ?thesis by (simp add: st')
  next
    case True
    then obtain name t ks where ks: "get_keys pending = (name, t) # ks"
      by (cases "get_keys pending") auto
    then have m: "(name, t) \<in> set (get_keys pending)" by simp
    from get_keys_names[OF m] have nm: "name = KEY_RESPONSE \<or> name = KEY_QUIT" .
    from get_keys_subset[OF m] have mem: "(name, t) \<in> set pending" .
    from assms(2) True have c: "(case scan_keys (get_keys pending) of
            Inl e \<Rightarrow> Inl e
          | Inr None \<Rightarrow> Inr (False, key, rt)
          | Inr (Some (k, t)) \<Rightarrow> Inr (True, Some k, Some (t * 1000))) = Inr st'"
      by (simp add: poll_event_def st Let_def)
    then obtain r where r: "scan_keys (get_keys pending) = Inr r"
      by (cases "scan_keys (get_keys pending)") simp_all
    from scan_keys_listed[OF ks nm r] have n: "name = KEY_RESPONSE" and rr: "r = Some (name, t)"
      by simp_all
    from c r rr have st': "st' = (True, Some name, Some (t * 1000))" by simp
    from latch_inv_set[OF mem[unfolded n]] show ?thesis by (simp add: st' n)
  qed
qed

lemma polls_inv:
  assumes "\<And>polls pending st st'. latch_inv polls st \<Longrightarrow> body pending st = Inr st' \<Longrightarrow>
             latch_inv (polls @ [pending]) st'"
  shows "latch_inv done st \<Longrightarrow> for_each body polls st = Inr st' \<Longrightarrow> latch_inv (done @ polls) st'"
proof (induction polls arbitrary: "done" st)
  case Nil
  then show ?case by simp
next
  case (Cons p ps)
  from Cons.prems(2) obtain s1 where s1: "body p st = Inr s1" and rest: "for_each body ps s1 = Inr st'"
    by (auto split: sum.splits)
  from assms[OF Cons.prems(1) s1] have "latch_inv (done @ [p]) s1" .
  from Cons.IH[OF this rest] show ?case by simp
qed

lemma score_correct:
  "(got \<longrightarrow> key = Some KEY_RESPONSE) \<Longrightarrow> (\<not> got \<longrightarrow> key = None) \<Longrightarrow>
   (score target key = 1) = ((target = 1 \<and> got) \<or> (target = 0 \<and> \<not> got))"
  by (cases got) (simp_all add: score_def)

text \<open>
  Claim C8. For every trial that runs to its end (no quit key), with either keyboard
  backend: the recorded correctness is 1 exactly when the plan is a target and a response
  was latched, or the plan is a non-target and no response was latched; it is 0 or 1; and
  a response is latched exactly when some poll of the trial held the response key, so one
  press means "match" and silence means "no match".
\<close>

theorem run_trial_correctness:
  assumes "run_trial use_hw plan polls = Inr (correct, (got_response, resp_key, rt_ms))"
  shows "(correct = 1 \<longleftrightarrow>
            (is_target plan = 1 \<and> got_response) \<or> (is_target plan = 0 \<and> \<not> got_response))
       \<and> (correct = 0 \<or> correct = 1)
       \<and> (got_response \<longleftrightarrow> (\<exists>pending \<in> set polls. KEY_RESPONSE \<in> fst ` set pending))"
proof -
  let ?body = "if use_hw then poll_hw else poll_event"
  from assms have run: "for_each ?body polls (False, None, None) = Inr (got_response, resp_key, rt_ms)"
    and c: "correct = score (is_target plan) resp_key"
    by (auto simp: run_trial_def split: sum.splits)
  have step: "\<And>polls pending st st'. latch_inv polls st \<Longrightarrow> ?body pending st = Inr st' \<Longrightarrow>
             latch_inv (polls @ [pending]) st'"
    using poll_hw_inv poll_event_inv by (auto split: if_splits)
  have "latch_inv [] (False, None, None)" by (simp add: latch_inv_def)
  from polls_inv[of ?body, OF step this run]
  have inv: "latch_inv polls (got_response, resp_key, rt_ms)" by simp
  then have a: "got_response \<longrightarrow> resp_key = Some KEY_RESPONSE" and b: "\<not> got_response \<longrightarrow> resp_key = None"
    and p: "got_response \<longleftrightarrow> (\<exists>pending \<in> set polls. KEY_RESPONSE \<in> fst ` set pending)"
    by (simp_all add: latch_inv_def)
  have "correct = 0 \<or> correct = 1" using c by (simp add: score_def Let_def)
  with score_correct[OF a b, of "is_target plan"] c p show ?thesis by simp
qed

theorem run_trial_correctness_witness:
  "run_trial False \<lparr>stimulus = ''A'', is_target = 1, lure_type = ''none'', iti_ms = 2000\<rparr>
      [[], [(''x'', 1/4)], [(''space'', 2/5), (''escape'', 1/2)], [(''escape'', 3/5)]]
    = Inr (1, (True, Some ''space'', Some 400))
   \<and> ((1::int) = 1 \<longleftrightarrow> ((1::int) = 1 \<and> True) \<or> ((1::int) = 0 \<and> \<not> True))"
proof -
  have r: "run_trial False \<lparr>stimulus = ''A'', is_target = 1, lure_type = ''none'', iti_ms = 2000\<rparr>
      [[], [(''x'', 1/4)], [(''space'', 2/5), (''escape'', 1/2)], [(''escape'', 3/5)]]
    = Inr (1, (True, Some ''space'', Some 400))"
    by (simp add: run_trial_def poll_event_def get_keys_def KEY_RESPONSE_def KEY_QUIT_def score_def Let_def)
  from run_trial_correctness[OF r] r show ?thesis by simp
qed

section \<open>The claims about the generator\<close>

lemma generate_sequence_cases:
  assumes "1 \<le> nb"
    and "generate_sequence nb nt rate r1 r2 mct max_run iti max_attempts soft lures g
            = Inr (plans, g')"
  shows "(\<exists>gp. primary_result nb nt rate r1 r2 mct max_run iti max_attempts soft lures g
                  = Inr (Some plans, gp)) \<and> primary_ok nb nt rate mct iti plans
       \<or> (\<exists>gp. primary_result nb nt rate r1 r2 mct max_run iti max_attempts soft lures g
                  = Inr (None, gp)) \<and> fallback_ok nb nt (desired_targets rate nt) mct iti plans"
  using generate_sequence_total[OF assms(1), of nt rate r1 r2 mct max_run iti max_attempts soft lures g]
    assms(2) by auto

lemma count_list_eq_sum:
  "set fs \<subseteq> {0, 1} \<Longrightarrow> int (count_list fs 1) = sum_list fs"
  by (induction fs) auto

lemma flags_of_plans:
  "\<forall>p \<in> set plans. is_target p \<in> {0, 1} \<Longrightarrow> set (map is_target plans) \<subseteq> {0, 1}"
  by auto

lemma py_round_nonneg: "0 \<le> x \<Longrightarrow> 0 \<le> py_round x"
proof -
  assume "0 \<le> x"
  then have "0 \<le> \<lfloor>x\<rfloor>" by simp
  then show ?thesis by (simp add: py_round_def Let_def)
qed

lemma desired_targets_nonneg: "0 \<le> rate \<Longrightarrow> 0 \<le> desired_targets rate nt"
  unfolding desired_targets_def by (rule py_round_nonneg) simp



text \<open>
  Claim C1 fails on the code. With the default configuration (n-back 2, three trials,
  target rate 0.3, lure rates 0.05, limits 1 and 2, 300 attempts, soft balance and lures
  on) and a random source whose first three draws are 0, 100 and 7, trial 1 becomes an n-1
  lure repeating trial 0, trial 2 is the target and would repeat the letter a third time,
  and the final run-limit repair replaces its letter: the returned plan at position 2 has
  \<open>is_target = 1\<close> although its stimulus differs from the stimulus two positions back.
\<close>

theorem generate_sequence_target_mismatch:
  "\<exists>plans g'.
     generate_sequence 2 3 (3 / 10) (1 / 20) (1 / 20) 1 2 500 300 True True [0, 100, 7]
       = Inr (plans, g')
     \<and> length plans = 3 \<and> is_target (plans ! 2) = 1
     \<and> stimulus (plans ! 2) \<noteq> stimulus (plans ! (2 - 2))"
  by (simp add: generate_example)

text \<open>
  Claim C2, amended. For every configuration with \<open>n_back \<ge> 1\<close> and a target rate that is
  not negative: either the returned list comes from an attempt of the primary loop and its
  number of plans with \<open>is_target = 1\<close> is within one of
  \<open>round (target_rate * n_trials)\<close>, or every attempt failed, the list comes from the
  fallback, and that number is at most \<open>round (target_rate * n_trials)\<close>. The fallback
  gives no lower bound.
\<close>

theorem target_count_bounds:
  assumes "1 \<le> nb" and "0 \<le> rate"
    and "generate_sequence nb nt rate r1 r2 mct max_run iti max_attempts soft lures g
            = Inr (plans, g')"
  shows "(\<exists>gp. primary_result nb nt rate r1 r2 mct max_run iti max_attempts soft lures g
                  = Inr (Some plans, gp))
           \<and> desired_targets rate nt - 1 \<le> int (count_list (map is_target plans) 1)
           \<and> int (count_list (map is_target plans) 1) \<le> desired_targets rate nt + 1
       \<or> (\<exists>gp. primary_result nb nt rate r1 r2 mct max_run iti max_attempts soft lures g
                  = Inr (None, gp))
           \<and> int (count_list (map is_target plans) 1) \<le> desired_targets rate nt"
proof -
  from generate_sequence_cases[OF assms(1,3)]
  consider "(\<exists>gp. primary_result nb nt rate r1 r2 mct max_run iti max_attempts soft lures g
                  = Inr (Some plans, gp))"
      "primary_ok nb nt rate mct iti plans"
    | "(\<exists>gp. primary_result nb nt rate r1 r2 mct max_run iti max_attempts soft lures g
                  = Inr (None, gp))"
      "fallback_ok nb nt (desired_targets rate nt) mct iti plans" by blast
  then show ?thesis
  proof cases
    case 1
    from 1(2) have "\<forall>p \<in> set plans. is_target p \<in> {0, 1}" unfolding primary_ok_def by blast
    then have c: "int (count_list (map is_target plans) 1) = sum_list (map is_target plans)"
      by (intro count_list_eq_sum flags_of_plans)
    from 1(2) have "desired_targets rate nt - 1 \<le> sum_list (map is_target plans)
        \<and> sum_list (map is_target plans) \<le> desired_targets rate nt + 1"
      unfolding primary_ok_def by blast
    with c 1(1) show ?thesis by simp
  next
    case 2
    from 2(2) have "\<forall>p \<in> set plans. is_target p \<in> {0, 1}" unfolding fallback_ok_def by blast
    then have c: "int (count_list (map is_target plans) 1) = sum_list (map is_target plans)"
      by (intro count_list_eq_sum flags_of_plans)
    from 2(2) have "sum_list (map is_target plans) \<le> max 0 (desired_targets rate nt)"
      unfolding fallback_ok_def scatter_inv_def by blast
    with desired_targets_nonneg[OF assms(2), of nt]
    have "sum_list (map is_target plans) \<le> desired_targets rate nt" by simp
    with c 2(1) show ?thesis by simp
  qed
qed

text \<open>
  Claim C2 as stated fails: with n-back 3, four trials and target rate 1 (the other
  arguments at their defaults) four targets are asked for, position 3 is the only one that
  may carry a target, and the list returned, by the fallback, has one target.
\<close>

theorem target_count_counterexample:
  "generate_sequence 3 4 1 (1 / 20) (1 / 20) 1 2 500 300 True True []
     = Inr ([\<lparr>stimulus = ''A'', is_target = 0, lure_type = ''none'', iti_ms = 500\<rparr>,
             \<lparr>stimulus = ''B'', is_target = 0, lure_type = ''none'', iti_ms = 500\<rparr>,
             \<lparr>stimulus = ''A'', is_target = 0, lure_type = ''none'', iti_ms = 500\<rparr>,
             \<lparr>stimulus = ''A'', is_target = 1, lure_type = ''none'', iti_ms = 500\<rparr>], [])
   \<and> count_list (map is_target
            [\<lparr>stimulus = ''A'', is_target = 0, lure_type = ''none'', iti_ms = 500\<rparr>,
             \<lparr>stimulus = ''B'', is_target = 0, lure_type = ''none'', iti_ms = 500\<rparr>,
             \<lparr>stimulus = ''A'', is_target = 0, lure_type = ''none'', iti_ms = 500\<rparr>,
             \<lparr>stimulus = ''A'', is_target = 1, lure_type = ''none'', iti_ms = 500\<rparr>]) 1 = 1
   \<and> desired_targets 1 4 = 4
   \<and> \<not> (desired_targets 1 4 - 1
          \<le> int (count_list (map is_target
            [\<lparr>stimulus = ''A'', is_target = 0, lure_type = ''none'', iti_ms = 500\<rparr>,
             \<lparr>stimulus = ''B'', is_target = 0, lure_type = ''none'', iti_ms = 500\<rparr>,
             \<lparr>stimulus = ''A'', is_target = 0, lure_type = ''none'', iti_ms = 500\<rparr>,
             \<lparr>stimulus = ''A'', is_target = 1, lure_type = ''none'', iti_ms = 500\<rparr>]) 1))"
  by (simp add: generate_last_only desired_all_four)

text \<open>The amended claim at the default configuration with three trials.\<close>

theorem target_count_bounds_witness:
  "(1::nat) \<le> 2 \<and> (0::rat) \<le> 3 / 10
   \<and> generate_sequence 2 3 (3 / 10) (1 / 20) (1 / 20) 1 2 500 300 True True [0, 100, 7]
       = Inr ([\<lparr>stimulus = ''A'', is_target = 0, lure_type = ''none'', iti_ms = 500\<rparr>,
               \<lparr>stimulus = ''A'', is_target = 0, lure_type = ''n-1'', iti_ms = 500\<rparr>,
               \<lparr>stimulus = ''B'', is_target = 1, lure_type = ''none'', iti_ms = 500\<rparr>], [])
   \<and> desired_targets (3 / 10) 3 = 1
   \<and> count_list (map is_target
              [\<lparr>stimulus = ''A'', is_target = 0, lure_type = ''none'', iti_ms = 500\<rparr>,
               \<lparr>stimulus = ''A'', is_target = 0, lure_type = ''n-1'', iti_ms = 500\<rparr>,
               \<lparr>stimulus = ''B'', is_target = 1, lure_type = ''none'', iti_ms = 500\<rparr>]) 1 = 1"
proof -
  have h: "(1::nat) \<le> 2" "(0::rat) \<le> 3 / 10" by simp_all
  from target_count_bounds[OF h generate_example] h generate_example desired_example
  show ?thesis by simp
qed




text \<open>
  Claim C4. For every configuration with \<open>n_back \<ge> 1\<close> and every plan list the generator
  returns, from the primary loop or from the fallback, no plan at a position below
  \<open>n_back\<close> has \<open>is_target = 1\<close>.
\<close>

theorem no_target_before_n_back:
  assumes "1 \<le> nb"
    and "generate_sequence nb nt rate r1 r2 mct max_run iti max_attempts soft lures g
            = Inr (plans, g')"
    and "i < nb" "i < length plans"
  shows "is_target (plans ! i) \<noteq> 1"
proof -
  from generate_sequence_cases[OF assms(1,2)]
  consider "primary_ok nb nt rate mct iti plans"
    | "fallback_ok nb nt (desired_targets rate nt) mct iti plans" by blast
  then show ?thesis
  proof cases
    case 1
    then have "length plans = nt \<and> (\<forall>i < min nb nt. map is_target plans ! i \<noteq> 1)"
      unfolding primary_ok_def by blast
    with assms(3,4) have "map is_target plans ! i \<noteq> 1" by (auto simp del: nth_map)
    with assms(4) show ?thesis by simp
  next
    case 2
    then have "length plans = nt \<and> (\<forall>i < nt. map is_target plans ! i = 1 \<longrightarrow> nb \<le> i)"
      unfolding fallback_ok_def scatter_inv_def flags_ok_def by simp
    with assms(3,4) have "map is_target plans ! i \<noteq> 1" by (auto simp del: nth_map)
    with assms(4) show ?thesis by simp
  qed
qed

theorem no_target_before_n_back_witness:
  "(1::nat) \<le> 2
   \<and> generate_sequence 2 3 (3 / 10) (1 / 20) (1 / 20) 1 2 500 300 True True [0, 100, 7]
       = Inr ([\<lparr>stimulus = ''A'', is_target = 0, lure_type = ''none'', iti_ms = 500\<rparr>,
               \<lparr>stimulus = ''A'', is_target = 0, lure_type = ''n-1'', iti_ms = 500\<rparr>,
               \<lparr>stimulus = ''B'', is_target = 1, lure_type = ''none'', iti_ms = 500\<rparr>], [])
   \<and> (1::nat) < 2
   \<and> is_target ([\<lparr>stimulus = ''A'', is_target = 0, lure_type = ''none'', iti_ms = 500\<rparr>,
               \<lparr>stimulus = ''A'', is_target = 0, lure_type = ''n-1'', iti_ms = 500\<rparr>,
               \<lparr>stimulus = ''B'', is_target = 1, lure_type = ''none'', iti_ms = 500\<rparr>] ! 1) \<noteq> 1"
proof -
  have h: "(1::nat) \<le> 2" "(1::nat) < 2" by simp_all
  from no_target_before_n_back[OF h(1) generate_example h(2)] h generate_example
  show ?thesis by simp
qed

text \<open>
  Claim C5. For every configuration with \<open>n_back = N \<ge> 1\<close> and every plan list the
  generator returns: a plan at position \<open>i\<close> with lure type "n-1" has \<open>N > 1\<close>,
  \<open>i \<ge> N - 1\<close>, the stimulus of position \<open>i - (N - 1)\<close> and, when \<open>i \<ge> N\<close>, not the
  stimulus of position \<open>i - N\<close>; a plan with lure type "n+1" has \<open>i \<ge> N + 1\<close>, the
  stimulus of position \<open>i - (N + 1)\<close> and, when \<open>i \<ge> N\<close>, not the stimulus of position
  \<open>i - N\<close>.
\<close>

theorem lures_are_valid:
  assumes "1 \<le> nb"
    and "generate_sequence nb nt rate r1 r2 mct max_run iti max_attempts soft lures g
            = Inr (plans, g')"
    and "i < length plans"
  shows "(lure_type (plans ! i) = ''n-1'' \<longrightarrow>
            1 < nb \<and> nb - 1 \<le> i
            \<and> stimulus (plans ! i) = stimulus (plans ! (i - (nb - 1)))
            \<and> (nb \<le> i \<longrightarrow> stimulus (plans ! i) \<noteq> stimulus (plans ! (i - nb))))
       \<and> (lure_type (plans ! i) = ''n+1'' \<longrightarrow>
            nb + 1 \<le> i
            \<and> stimulus (plans ! i) = stimulus (plans ! (i - (nb + 1)))
            \<and> (nb \<le> i \<longrightarrow> stimulus (plans ! i) \<noteq> stimulus (plans ! (i - nb))))"
proof -
  from generate_sequence_cases[OF assms(1,2)]
  consider "primary_ok nb nt rate mct iti plans"
    | "fallback_ok nb nt (desired_targets rate nt) mct iti plans" by blast
  then show ?thesis
  proof cases
    case 1
    then have "length plans = nt
      \<and> (\<forall>i < nt. lure_valid nb (map stimulus plans) (map is_target plans)
        (map lure_type plans) i)"
      unfolding primary_ok_def by blast
    with assms(3) have lv: "lure_valid nb (map stimulus plans) (map is_target plans)
        (map lure_type plans) i" by simp
    have a: "i - (nb - 1) < length plans" "i - (nb + 1) < length plans" "i - nb < length plans"
      using assms(3) by simp_all
    from lv show ?thesis unfolding lure_valid_def
      using assms(3) a by (auto simp: nth_map)
  next
    case 2
    then have "\<forall>p \<in> set plans. lure_type p = ''none''" by (simp add: fallback_ok_def)
    with assms(3) have "lure_type (plans ! i) = ''none''" using nth_mem by blast
    then show ?thesis by simp
  qed
qed

theorem lures_are_valid_witness:
  "(1::nat) \<le> 2
   \<and> generate_sequence 2 3 (3 / 10) (1 / 20) (1 / 20) 1 2 500 300 True True [0, 100, 7]
       = Inr ([\<lparr>stimulus = ''A'', is_target = 0, lure_type = ''none'', iti_ms = 500\<rparr>,
               \<lparr>stimulus = ''A'', is_target = 0, lure_type = ''n-1'', iti_ms = 500\<rparr>,
               \<lparr>stimulus = ''B'', is_target = 1, lure_type = ''none'', iti_ms = 500\<rparr>], [])
   \<and> lure_type ([\<lparr>stimulus = ''A'', is_target = 0, lure_type = ''none'', iti_ms = 500\<rparr>,
               \<lparr>stimulus = ''A'', is_target = 0, lure_type = ''n-1'', iti_ms = 500\<rparr>,
               \<lparr>stimulus = ''B'', is_target = 1, lure_type = ''none'', iti_ms = 500\<rparr>] ! 1) = ''n-1''
   \<and> stimulus ([\<lparr>stimulus = ''A'', is_target = 0, lure_type = ''none'', iti_ms = 500\<rparr>,
               \<lparr>stimulus = ''A'', is_target = 0, lure_type = ''n-1'', iti_ms = 500\<rparr>,
               \<lparr>stimulus = ''B'', is_target = 1, lure_type = ''none'', iti_ms = 500\<rparr>] ! 1)
     = stimulus ([\<lparr>stimulus = ''A'', is_target = 0, lure_type = ''none'', iti_ms = 500\<rparr>,
               \<lparr>stimulus = ''A'', is_target = 0, lure_type = ''n-1'', iti_ms = 500\<rparr>,
               \<lparr>stimulus = ''B'', is_target = 1, lure_type = ''none'', iti_ms = 500\<rparr>] ! (1 - (2 - 1)))"
proof -
  have h: "(1::nat) \<le> 2" by simp
  have l: "(1::nat) < length [\<lparr>stimulus = ''A'', is_target = 0, lure_type = ''none'', iti_ms = 500\<rparr>,
               \<lparr>stimulus = ''A'', is_target = 0, lure_type = ''n-1'', iti_ms = 500\<rparr>,
               \<lparr>stimulus = ''B'', is_target = 1, lure_type = ''none'', iti_ms = 500\<rparr>]" by simp
  from lures_are_valid[OF h generate_example l] h generate_example
  show ?thesis by simp
qed

text \<open>
  Claim C6. For every configuration with \<open>n_back \<ge> 1\<close> and every trial count, whatever
  the rates, the limits, the random source and \<open>max_attempts\<close> (0 or negative included,
  which sends every call to the fallback): the generator raises no exception and returns
  exactly \<open>n_trials\<close> plans.
\<close>

theorem generate_sequence_returns:
  assumes "1 \<le> nb"
  shows "\<exists>plans g'.
     generate_sequence nb nt rate r1 r2 mct max_run iti max_attempts soft lures g
       = Inr (plans, g')
     \<and> length plans = nt"
proof -
  from generate_sequence_total[OF assms] obtain plans g' where
    r: "generate_sequence nb nt rate r1 r2 mct max_run iti max_attempts soft lures g
       = Inr (plans, g')"
    and "primary_ok nb nt rate mct iti plans
       \<or> fallback_ok nb nt (desired_targets rate nt) mct iti plans" by blast
  then have "length plans = nt" by (auto simp: primary_ok_def fallback_ok_def)
  with r show ?thesis by blast
qed

theorem generate_sequence_returns_witness:
  "(1::nat) \<le> 2
   \<and> (\<exists>plans g'.
        generate_sequence 2 10 (3 / 10) (1 / 20) (1 / 20) 1 2 500 0 True True [3, 1, 4, 1, 5]
          = Inr (plans, g')
        \<and> length plans = 10)"
proof -
  have h: "(1::nat) \<le> 2" by simp
  from generate_sequence_returns[OF h] h show ?thesis by blast
qed

text \<open>
  Claim C10. For every configuration with \<open>n_back \<ge> 1\<close> and every plan list the generator
  returns, from the primary loop or from the fallback: every stimulus is one of the 23
  letters A to Z without I, O and Q, every lure type is "none", "n-1" or "n+1", and every
  target flag is 0 or 1.
\<close>

theorem plans_well_formed:
  assumes "1 \<le> nb"
    and "generate_sequence nb nt rate r1 r2 mct max_run iti max_attempts soft lures g
            = Inr (plans, g')"
    and "p \<in> set plans"
  shows "stimulus p \<in> set LETTERS
       \<and> LETTERS = [''A'', ''B'', ''C'', ''D'', ''E'', ''F'', ''G'', ''H'', ''J'', ''K'', ''L'',
            ''M'', ''N'', ''P'', ''R'', ''S'', ''T'', ''U'', ''V'', ''W'', ''X'', ''Y'', ''Z'']
       \<and> length LETTERS = 23
       \<and> lure_type p \<in> {''none'', ''n-1'', ''n+1''}
       \<and> is_target p \<in> {0, 1}"
proof -
  from generate_sequence_cases[OF assms(1,2)]
  consider "primary_ok nb nt rate mct iti plans"
    | "fallback_ok nb nt (desired_targets rate nt) mct iti plans" by blast
  then have "stimulus p \<in> set LETTERS \<and> lure_type p \<in> {''none'', ''n-1'', ''n+1''}
       \<and> is_target p \<in> {0, 1}"
  proof cases
    case 1
    with assms(3) show ?thesis by (simp add: primary_ok_def)
  next
    case 2
    with assms(3) show ?thesis by (simp add: fallback_ok_def)
  qed
  with LETTERS_eq LETTERS_length show ?thesis by blast
qed

theorem plans_well_formed_witness:
  "(1::nat) \<le> 2
   \<and> generate_sequence 2 3 (3 / 10) (1 / 20) (1 / 20) 1 2 500 300 True True [0, 100, 7]
       = Inr ([\<lparr>stimulus = ''A'', is_target = 0, lure_type = ''none'', iti_ms = 500\<rparr>,
               \<lparr>stimulus = ''A'', is_target = 0, lure_type = ''n-1'', iti_ms = 500\<rparr>,
               \<lparr>stimulus = ''B'', is_target = 1, lure_type = ''none'', iti_ms = 500\<rparr>], [])
   \<and> ''B'' \<in> set LETTERS \<and> (1::int) \<in> {0, 1}"
proof -
  have h: "(1::nat) \<le> 2" by simp
  have m: "\<lparr>stimulus = ''B'', is_target = 1, lure_type = ''none'', iti_ms = 500\<rparr>
     \<in> set [\<lparr>stimulus = ''A'', is_target = 0, lure_type = ''none'', iti_ms = 500\<rparr>,
               \<lparr>stimulus = ''A'', is_target = 0, lure_type = ''n-1'', iti_ms = 500\<rparr>,
               \<lparr>stimulus = ''B'', is_target = 1, lure_type = ''none'', iti_ms = 500\<rparr>]" by simp
  from plans_well_formed[OF h generate_example m] h generate_example
  show ?thesis by simp
qed

end
